theory Spec2Isabelle
  imports Main
begin

section \<open>The task scheduler of work.ts\<close>

text \<open>
  The module \<^verbatim>\<open>src/work.ts\<close> has two classes, \<^verbatim>\<open>TaskImpl\<close> and \<^verbatim>\<open>Scheduler\<close>, and the
  disposable \<^verbatim>\<open>OnCancel\<close>. Objects live in a store: a reference is the index of the
  object in the list of its class, and \<^verbatim>\<open>new\<close> appends to that list. Every method is a
  function from the store to the store; a method that can throw returns a \<open>res\<close> next
  to the store it leaves behind, because what it has written before the throw stays
  written.

  JavaScript runs one job at a time. A job of this module is a call of a public method,
  the part of \<^verbatim>\<open>play\<close> after its \<^verbatim>\<open>await\<close>, or a reaction registered with \<^verbatim>\<open>then\<close> or
  \<^verbatim>\<open>catch\<close>; each is one \<open>event\<close> below, and a run of the program is a list of events.
\<close>

subsection \<open>Values, promises, callbacks\<close>

text \<open>
  The values that are thrown or that settle a promise: \<^verbatim>\<open>undefined\<close>, the symbol
  \<^verbatim>\<open>CANCELLED\<close>, an \<^verbatim>\<open>Error\<close> with its message, and any other value.
\<close>

datatype jsval = Undefined | CANCELLED | Error string | Val nat

datatype pstate = Pending | Fulfilled jsval | Rejected jsval

datatype 'a res = Ret 'a | Throw jsval

text \<open>How an awaited operation settles: with a value, or with a thrown value.\<close>

datatype outcome = Returns jsval | Throws jsval

text \<open>\<^verbatim>\<open>enum TaskState { WAIT, STARTED, DONE }\<close>, with the numbers the enum gives.\<close>

datatype TaskState = WAIT | STARTED | DONE

fun TaskState_val :: "TaskState \<Rightarrow> nat" where
  "TaskState_val WAIT = 0"
| "TaskState_val STARTED = 1"
| "TaskState_val DONE = 2"

text \<open>
  A cancellation listener is a function, compared by identity. Two kinds reach the
  listener array: the \<^verbatim>\<open>reject\<close> function of the promise that \<^verbatim>\<open>with\<close> builds
  (\<open>RejectOf p\<close>, \<open>p\<close> the promise), and a function of the caller: \<open>UserFn i hs e\<close> is
  the function number \<open>i\<close>, which, when it is called, calls \<^verbatim>\<open>dispose()\<close> on the handles
  \<open>hs\<close>, in this order, and then returns (\<open>e\<close> is \<open>None\<close>) or throws \<open>v\<close> (\<open>e\<close> is \<open>Some v\<close>).

  A caller reaches a task through the interface \<^verbatim>\<open>Task\<close> (lines 29-36: \<^verbatim>\<open>cancelled\<close>,
  \<^verbatim>\<open>oncancel\<close>, \<^verbatim>\<open>checkCanceled\<close>, \<^verbatim>\<open>with\<close>) and through the handles that \<^verbatim>\<open>oncancel\<close>
  returned to it. Of these, disposing a handle is the call by which a listener changes
  the array that \<^verbatim>\<open>fireCancel\<close> is walking: the task is cancelled by then, so \<^verbatim>\<open>oncancel\<close>
  calls the function it is given at once and \<^verbatim>\<open>with\<close> returns a rejected promise, neither
  pushing onto the array (lines 96 and 114-118), and \<^verbatim>\<open>removeCancelListener\<close>, which
  \<^verbatim>\<open>dispose()\<close> calls, is the one place left that writes to it. Calls of the scheduler
  from inside a listener are not part of what a \<open>UserFn\<close> does.
\<close>

datatype callback = RejectOf nat | UserFn nat "nat list" "jsval option"

fun is_user :: "callback \<Rightarrow> bool" where
  "is_user (RejectOf p) = False"
| "is_user (UserFn i hs e) = True"

text \<open>
  The one call of \<^verbatim>\<open>play\<close> that passes its guard: not yet made, suspended at
  \<^verbatim>\<open>await this.task(this)\<close>, settled with the reaction \<^verbatim>\<open>() => this.progress()\<close> not
  yet run, settled with that reaction run, or rejected.
\<close>

datatype activation = NotCalled | Suspended | Returned | Continued | Failed

subsection \<open>The store\<close>

text \<open>
  \<^verbatim>\<open>TaskImpl\<close>: the fields of the class (\<open>nxt\<close> is the field \<^verbatim>\<open>next\<close>; \<open>promise\<close> is the
  state of the promise whose resolver is the field \<^verbatim>\<open>resolve\<close>), and \<open>act\<close>, the state of
  its call of \<^verbatim>\<open>play\<close>. The body \<^verbatim>\<open>task\<close> is code of the caller: what it does arrives as
  events.
\<close>

record TaskImpl =
  name :: string
  nxt :: "nat option"
  cancelled :: bool
  state :: TaskState
  cancelListeners :: "callback list"
  promise :: pstate
  act :: activation

record OnCancel =
  task :: nat
  target :: "callback option"

text \<open>
  A promise returned by \<^verbatim>\<open>with\<close>: its state, the task it belongs to, and whether the
  reactions on \<^verbatim>\<open>waitWith\<close> are still to run.
\<close>

record wrapper =
  st :: pstate
  owner :: nat
  waiting :: bool

text \<open>
  One \<^verbatim>\<open>Scheduler\<close> (its fields \<^verbatim>\<open>name\<close>, \<^verbatim>\<open>currentTask\<close>, \<^verbatim>\<open>nextTask\<close>, \<^verbatim>\<open>lastTask\<close>) with
  everything it reaches, the three channels of \<^verbatim>\<open>util\<close>, and what the callers' code
  observes: the listeners called (\<open>fired\<close>) and the bodies called (\<open>calls\<close>), in order,
  and the values of the promises that were rejected with no handler (\<open>unhandled\<close>).
\<close>

record world =
  tasks :: "TaskImpl list"
  handles :: "OnCancel list"
  wrapped :: "wrapper list"
  sname :: string
  currentTask :: "nat option"
  nextTask :: "nat option"
  lastTask :: "nat option"
  verboseLog :: "string list"
  messageLog :: "string list"
  errorLog :: "jsval list"
  fired :: "callback list"
  calls :: "nat list"
  unhandled :: "jsval list"

definition init :: "string \<Rightarrow> world" where
  "init n = \<lparr>tasks = [], handles = [], wrapped = [], sname = n, currentTask = None,
     nextTask = None, lastTask = None, verboseLog = [], messageLog = [], errorLog = [],
     fired = [], calls = [], unhandled = []\<rparr>"

definition upd_task :: "nat \<Rightarrow> (TaskImpl \<Rightarrow> TaskImpl) \<Rightarrow> world \<Rightarrow> world" where
  "upd_task a f w = w\<lparr>tasks := (tasks w)[a := f (tasks w ! a)]\<rparr>"

definition verbose :: "string \<Rightarrow> world \<Rightarrow> world" where
  "verbose s w = w\<lparr>verboseLog := verboseLog w @ [s]\<rparr>"

definition message :: "string \<Rightarrow> world \<Rightarrow> world" where
  "message s w = w\<lparr>messageLog := messageLog w @ [s]\<rparr>"

definition error :: "jsval \<Rightarrow> world \<Rightarrow> world" where
  "error e w = w\<lparr>errorLog := errorLog w @ [e]\<rparr>"

text \<open>Settling a promise of \<^verbatim>\<open>with\<close>: only a pending promise changes.\<close>

definition settle :: "nat \<Rightarrow> pstate \<Rightarrow> world \<Rightarrow> world" where
  "settle p s w =
     (if st (wrapped w ! p) = Pending
      then w\<lparr>wrapped := (wrapped w)[p := (wrapped w ! p)\<lparr>st := s\<rparr>]\<rparr>
      else w)"

subsection \<open>TaskImpl\<close>

text \<open>\<^verbatim>\<open>new TaskImpl(name, task)\<close>: the field initialisers and the constructor.\<close>

definition new_TaskImpl :: "string \<Rightarrow> TaskImpl" where
  "new_TaskImpl n = \<lparr>name = n, nxt = None, cancelled = False, state = WAIT,
     cancelListeners = [], promise = Pending, act = NotCalled\<rparr>"

text \<open>\<^verbatim>\<open>this.resolve()\<close>: fulfils the promise with \<^verbatim>\<open>undefined\<close> if it is pending.\<close>

definition resolve :: "nat \<Rightarrow> world \<Rightarrow> world" where
  "resolve a w =
     upd_task a (\<lambda>t. t\<lparr>promise := (if promise t = Pending then Fulfilled Undefined else promise t)\<rparr>) w"

text \<open>\<^verbatim>\<open>Array.prototype.lastIndexOf\<close>: the greatest index of an equal element, or -1.\<close>

fun lastIndexOf :: "'a list \<Rightarrow> 'a \<Rightarrow> int" where
  "lastIndexOf [] x = - 1"
| "lastIndexOf (y # ys) x =
     (if lastIndexOf ys x = - 1 then (if y = x then 0 else - 1) else lastIndexOf ys x + 1)"

text \<open>\<^verbatim>\<open>xs.splice(i, 1)\<close> for an index in range.\<close>

definition splice1 :: "nat \<Rightarrow> 'a list \<Rightarrow> 'a list" where
  "splice1 i xs = take i xs @ drop (Suc i) xs"

definition TaskImpl_removeCancelListener :: "nat \<Rightarrow> callback \<Rightarrow> world \<Rightarrow> bool res \<times> world" where
  "TaskImpl_removeCancelListener a cb w =
     (let idx = lastIndexOf (cancelListeners (tasks w ! a)) cb in
      if idx = - 1 then (Ret False, w)
      else (Ret True, upd_task a (\<lambda>t. t\<lparr>cancelListeners := splice1 (nat idx) (cancelListeners t)\<rparr>) w))"

text \<open>
  \<^verbatim>\<open>OnCancel.dispose()\<close>. The handle knows its task and, until it is disposed, the
  function it was made for.
\<close>

definition OnCancel_dispose :: "nat \<Rightarrow> world \<Rightarrow> unit res \<times> world" where
  "OnCancel_dispose h w =
     (case target (handles w ! h) of
        None \<Rightarrow> (Ret (), w)
      | Some cb \<Rightarrow>
          (let w' = snd (TaskImpl_removeCancelListener (task (handles w ! h)) cb w)
           in (Ret (), w'\<lparr>handles := (handles w')[h := (handles w' ! h)\<lparr>target := None\<rparr>]\<rparr>)))"

text \<open>
  The handles a caller can hold: those that \<^verbatim>\<open>oncancel\<close> returned to it. The one that
  \<^verbatim>\<open>with\<close> makes for \<^verbatim>\<open>reject\<close> is dropped at once (line 98).
\<close>

definition held :: "nat \<Rightarrow> world \<Rightarrow> bool" where
  "held h w \<longleftrightarrow>
     h < length (handles w) \<and> (case target (handles w ! h) of None \<Rightarrow> True | Some cb \<Rightarrow> is_user cb)"

text \<open>What a function of the caller does to the store while it runs: it disposes handles.\<close>

fun disposals :: "nat list \<Rightarrow> world \<Rightarrow> world" where
  "disposals [] w = w"
| "disposals (h # hs) w = disposals hs (if held h w then snd (OnCancel_dispose h w) else w)"

text \<open>
  Calling a listener with no argument, as \<^verbatim>\<open>fireCancel\<close> and \<^verbatim>\<open>oncancel\<close> do. \<^verbatim>\<open>reject()\<close>
  rejects its promise with \<^verbatim>\<open>undefined\<close>.
\<close>

fun invoke :: "callback \<Rightarrow> world \<Rightarrow> unit res \<times> world" where
  "invoke (RejectOf p) w = (Ret (), settle p (Rejected Undefined) (w\<lparr>fired := fired w @ [RejectOf p]\<rparr>))"
| "invoke (UserFn i hs None) w = (Ret (), disposals hs (w\<lparr>fired := fired w @ [UserFn i hs None]\<rparr>))"
| "invoke (UserFn i hs (Some e)) w = (Throw e, disposals hs (w\<lparr>fired := fired w @ [UserFn i hs (Some e)]\<rparr>))"

text \<open>
  \<^verbatim>\<open>for (const listener of this.cancelListeners) listener();\<close> The iterator of an array
  keeps a position and reads the array itself at every turn: it stops when the position
  has reached the length the array has then, and otherwise calls the element that is at
  the position then. \<open>fireLoop a i\<close> is the loop of task \<open>a\<close> from position \<open>i\<close> on. A
  listener that throws ends the loop: nothing catches it.
\<close>

function fireLoop :: "nat \<Rightarrow> nat \<Rightarrow> world \<Rightarrow> unit res \<times> world" where
  "fireLoop a i w =
     (if i < length (cancelListeners (tasks w ! a))
      then (case invoke (cancelListeners (tasks w ! a) ! i) w of
              (Throw e, w') \<Rightarrow> (Throw e, w')
            | (Ret u, w') \<Rightarrow> fireLoop a (Suc i) w')
      else (Ret (), w))"
  by pat_completeness auto

termination
proof -
  have rm: "length (cancelListeners (tasks (snd (TaskImpl_removeCancelListener b cb w)) ! a))
      \<le> length (cancelListeners (tasks w ! a))" for a b cb w
    by (cases "a = b"; cases "b < length (tasks w)")
       (auto simp: TaskImpl_removeCancelListener_def Let_def upd_task_def splice1_def list_update_beyond)
  have dp: "length (cancelListeners (tasks (snd (OnCancel_dispose h w)) ! a))
      \<le> length (cancelListeners (tasks w ! a))" for a h w
    using rm [of "task (handles w ! h)" _ w a]
    by (simp add: OnCancel_dispose_def Let_def split: option.splits)
  have ds: "length (cancelListeners (tasks (disposals hs w) ! a))
      \<le> length (cancelListeners (tasks w ! a))" for a hs w
  proof (induction hs arbitrary: w)
    case Nil
    then show ?case by simp
  next
    case (Cons h hs)
    let ?u = "if held h w then snd (OnCancel_dispose h w) else w"
    have "length (cancelListeners (tasks ?u ! a)) \<le> length (cancelListeners (tasks w ! a))"
      using dp [of h w a] by simp
    with Cons [of ?u] show ?case by simp
  qed
  have iv: "length (cancelListeners (tasks (snd (invoke cb w)) ! a))
      \<le> length (cancelListeners (tasks w ! a))" for a cb w
  proof (cases "(cb, w)" rule: invoke.cases)
    case (1 p v)
    then show ?thesis by (simp add: settle_def)
  next
    case (2 i hs v)
    with ds [of hs "v\<lparr>fired := fired v @ [UserFn i hs None]\<rparr>" a] show ?thesis by simp
  next
    case (3 i hs e v)
    with ds [of hs "v\<lparr>fired := fired v @ [UserFn i hs (Some e)]\<rparr>" a] show ?thesis by simp
  qed
  show ?thesis
  proof (relation "measure (\<lambda>(a, i, w). length (cancelListeners (tasks w ! a)) - i)")
    show "wf (measure (\<lambda>(a, i, w). length (cancelListeners (tasks w ! a)) - i))" by simp
  next
    fix a i w r w' u
    assume i: "i < length (cancelListeners (tasks w ! a))"
      and c: "(r, w') = invoke (cancelListeners (tasks w ! a) ! i) w"
    from c have "w' = snd (invoke (cancelListeners (tasks w ! a) ! i) w)" by (metis snd_conv)
    with iv [of "cancelListeners (tasks w ! a) ! i" w a] i
    show "((a, Suc i, w'), a, i, w) \<in> measure (\<lambda>(a, i, w). length (cancelListeners (tasks w ! a)) - i)"
      by simp
  qed
qed

text \<open>\<^verbatim>\<open>fireCancel()\<close>: the loop from the front, then \<^verbatim>\<open>this.cancelListeners.length = 0\<close>.\<close>

definition fireCancel :: "nat \<Rightarrow> world \<Rightarrow> unit res \<times> world" where
  "fireCancel a w =
     (case fireLoop a 0 w of
        (Throw e, w') \<Rightarrow> (Throw e, w')
      | (Ret u, w') \<Rightarrow> (Ret (), upd_task a (\<lambda>t. t\<lparr>cancelListeners := []\<rparr>) w'))"

definition TaskImpl_cancel :: "nat \<Rightarrow> world \<Rightarrow> unit res \<times> world" where
  "TaskImpl_cancel a w =
     (if cancelled (tasks w ! a) then (Ret (), w)
      else fireCancel a (upd_task a (\<lambda>t. t\<lparr>cancelled := True\<rparr>) w))"

text \<open>\<^verbatim>\<open>new OnCancel(task, target)\<close>; the result is the new reference.\<close>

definition new_OnCancel :: "nat \<Rightarrow> callback option \<Rightarrow> world \<Rightarrow> nat res \<times> world" where
  "new_OnCancel a tg w = (Ret (length (handles w)), w\<lparr>handles := handles w @ [\<lparr>task = a, target = tg\<rparr>]\<rparr>)"

definition TaskImpl_oncancel :: "nat \<Rightarrow> callback \<Rightarrow> world \<Rightarrow> nat res \<times> world" where
  "TaskImpl_oncancel a cb w =
     (if cancelled (tasks w ! a) then
        (case invoke cb w of
           (Throw e, w') \<Rightarrow> (Throw e, w')
         | (Ret u, w') \<Rightarrow> new_OnCancel a None w')
      else new_OnCancel a (Some cb) (upd_task a (\<lambda>t. t\<lparr>cancelListeners := cancelListeners t @ [cb]\<rparr>) w))"

definition TaskImpl_checkCanceled :: "nat \<Rightarrow> world \<Rightarrow> unit res \<times> world" where
  "TaskImpl_checkCanceled a w = (if cancelled (tasks w ! a) then (Throw CANCELLED, w) else (Ret (), w))"

text \<open>
  \<^verbatim>\<open>with(waitWith)\<close>. The result is the new promise. In the third case the executor
  runs \<^verbatim>\<open>this.oncancel(reject)\<close> (a throw of the executor would reject the promise) and
  subscribes the two reactions to \<^verbatim>\<open>waitWith\<close>: the promise is \<open>waiting\<close>.
\<close>

definition new_wrapper :: "pstate \<Rightarrow> nat \<Rightarrow> bool \<Rightarrow> world \<Rightarrow> world" where
  "new_wrapper s a wt w = w\<lparr>wrapped := wrapped w @ [\<lparr>st = s, owner = a, waiting = wt\<rparr>]\<rparr>"

definition TaskImpl_with :: "nat \<Rightarrow> world \<Rightarrow> nat res \<times> world" where
  "TaskImpl_with a w =
     (let p = length (wrapped w) in
      if state (tasks w ! a) \<noteq> STARTED
      then (Ret p, new_wrapper (Rejected (Error ''Task.with must call in task'')) a False w)
      else if cancelled (tasks w ! a)
      then (Ret p, new_wrapper (Rejected CANCELLED) a False w)
      else
        (case TaskImpl_oncancel a (RejectOf p) (new_wrapper Pending a True w) of
           (Throw e, w') \<Rightarrow> (Ret p, settle p (Rejected e) (w'\<lparr>wrapped := (wrapped w')[p := (wrapped w' ! p)\<lparr>waiting := False\<rparr>]\<rparr>))
         | (Ret h, w') \<Rightarrow> (Ret p, w')))"

text \<open>
  The reactions of \<^verbatim>\<open>with\<close> on \<^verbatim>\<open>waitWith\<close>, for the promise \<open>p\<close> they close over:
  \<^verbatim>\<open>v => { if (this.cancelled) return; this.removeCancelListener(reject); resolve(v); }\<close>
  and the same with \<^verbatim>\<open>reject(err)\<close>.
\<close>

definition with_then :: "nat \<Rightarrow> jsval \<Rightarrow> world \<Rightarrow> world" where
  "with_then p v w =
     (let a = owner (wrapped w ! p) in
      if cancelled (tasks w ! a) then w
      else settle p (Fulfilled v) (snd (TaskImpl_removeCancelListener a (RejectOf p) w)))"

definition with_catch :: "nat \<Rightarrow> jsval \<Rightarrow> world \<Rightarrow> world" where
  "with_catch p err w =
     (let a = owner (wrapped w ! p) in
      if cancelled (tasks w ! a) then w
      else settle p (Rejected err) (snd (TaskImpl_removeCancelListener a (RejectOf p) w)))"

text \<open>
  \<^verbatim>\<open>play()\<close> up to its \<^verbatim>\<open>await\<close>. The result is the state of the promise \<^verbatim>\<open>play\<close> returns:
  rejected by the guard, fulfilled by the early return, or pending with the body called.
\<close>

definition TaskImpl_play :: "nat \<Rightarrow> world \<Rightarrow> pstate \<times> world" where
  "TaskImpl_play a w =
     (if TaskState_val (state (tasks w ! a)) \<ge> TaskState_val STARTED
      then (Rejected (Error ''play must call once''), w)
      else
        (let w1 = upd_task a (\<lambda>t. t\<lparr>state := STARTED\<rparr>) w in
         if cancelled (tasks w1 ! a)
         then (Fulfilled Undefined, upd_task a (\<lambda>t. t\<lparr>act := Returned\<rparr>) w1)
         else
           (let w2 = verbose (''[TASK:'' @ name (tasks w1 ! a) @ ''] started'') w1
            in (Pending, upd_task a (\<lambda>t. t\<lparr>act := Suspended\<rparr>) (w2\<lparr>calls := calls w2 @ [a]\<rparr>)))))"

text \<open>
  The end of \<^verbatim>\<open>play\<close>: \<^verbatim>\<open>util.verbose(..done); this.resolve(); return this.promise;\<close>
  The promise of \<^verbatim>\<open>play\<close> takes the state of \<^verbatim>\<open>this.promise\<close>.
\<close>

definition play_done :: "nat \<Rightarrow> world \<Rightarrow> world" where
  "play_done a w =
     (let w1 = resolve a (verbose (''[TASK:'' @ name (tasks w ! a) @ ''] done'') w)
      in upd_task a (\<lambda>t. t\<lparr>act := (case promise t of Rejected e \<Rightarrow> Failed | Fulfilled v \<Rightarrow> Returned | Pending \<Rightarrow> Suspended)\<rparr>) w1)"

text \<open>\<^verbatim>\<open>play()\<close> from its \<^verbatim>\<open>await\<close> on, when the body has settled.\<close>

definition TaskImpl_play_resume :: "nat \<Rightarrow> outcome \<Rightarrow> world \<Rightarrow> world" where
  "TaskImpl_play_resume a oc w =
     (case oc of
        Returns v \<Rightarrow> play_done a w
      | Throws e \<Rightarrow>
          (if e = CANCELLED
           then upd_task a (\<lambda>t. t\<lparr>act := Returned\<rparr>) (verbose (''[TASK:'' @ name (tasks w ! a) @ ''] cancelled'') w)
           else play_done a (error e w)))"

subsection \<open>Scheduler\<close>

text \<open>
  \<^verbatim>\<open>progress()\<close>. The reaction \<^verbatim>\<open>() => this.progress()\<close> it chains onto \<^verbatim>\<open>play()\<close> is the
  event \<open>PlayThen\<close>.
\<close>

definition Scheduler_progress :: "world \<Rightarrow> world" where
  "Scheduler_progress w =
     (case nextTask w of
        None \<Rightarrow> (verbose (''[SCHEDULAR:'' @ sname w @ ''] idle'') w)\<lparr>currentTask := None\<rparr>
      | Some a \<Rightarrow>
          (let w1 = w\<lparr>currentTask := Some a\<rparr>;
               w2 = (case nxt (tasks w1 ! a) of
                       None \<Rightarrow> w1\<lparr>nextTask := None, lastTask := None\<rparr>
                     | Some b \<Rightarrow> w1\<lparr>nextTask := Some b\<rparr>)
           in snd (TaskImpl_play a w2)))"

text \<open>\<^verbatim>\<open>task(name, taskfunc)\<close>; the result is the new task, whose promise the caller gets.\<close>

definition Scheduler_task :: "string \<Rightarrow> world \<Rightarrow> nat \<times> world" where
  "Scheduler_task n w =
     (let a = length (tasks w);
          w1 = w\<lparr>tasks := tasks w @ [new_TaskImpl n]\<rparr>;
          w2 = (case lastTask w1 of
                  Some l \<Rightarrow> (upd_task l (\<lambda>t. t\<lparr>nxt := Some a\<rparr>) w1)\<lparr>lastTask := Some a\<rparr>
                | None \<Rightarrow> w1\<lparr>nextTask := Some a, lastTask := Some a\<rparr>)
      in if currentTask w2 = None
         then (a, Scheduler_progress (verbose (''[SCHEDULAR:'' @ sname w2 @ ''] busy'') w2))
         else (a, w2))"

definition cancelled_message :: "world \<Rightarrow> nat \<Rightarrow> string" where
  "cancelled_message w a = ''['' @ sname w @ ''/'' @ name (tasks w ! a) @ '']task is cancelled''"

text \<open>
  \<^verbatim>\<open>while (next) { util.message(..); next = next.next; }\<close> The loop follows references
  and ends only if it reaches \<^verbatim>\<open>null\<close>: \<open>None\<close> is the loop that does not end.
\<close>

partial_function (option) cancel_loop :: "nat option \<Rightarrow> world \<Rightarrow> world option" where
  "cancel_loop nx w =
     (case nx of
        None \<Rightarrow> Some w
      | Some b \<Rightarrow> cancel_loop (nxt (tasks w ! b)) (message (cancelled_message w b) w))"

declare cancel_loop.simps [code]

definition Scheduler_cancel :: "world \<Rightarrow> (unit res \<times> world) option" where
  "Scheduler_cancel w =
     (case currentTask w of
        None \<Rightarrow> Some (Ret (), w)
      | Some a \<Rightarrow>
          (case TaskImpl_cancel a w of
             (Throw e, w1) \<Rightarrow> Some (Throw e, w1)
           | (Ret u, w1) \<Rightarrow>
               (let w2 = (message (cancelled_message w1 a) w1)\<lparr>currentTask := None\<rparr> in
                case cancel_loop (nxt (tasks w2 ! a)) w2 of
                  None \<Rightarrow> None
                | Some w3 \<Rightarrow> Some (Ret (), w3\<lparr>nextTask := None, lastTask := None\<rparr>))))"

definition Scheduler_throwIfBusy :: "world \<Rightarrow> unit res" where
  "Scheduler_throwIfBusy w =
     (case currentTask w of
        None \<Rightarrow> Ret ()
      | Some a \<Rightarrow> Throw (Error (''ftp-kr is busy: ['' @ name (tasks w ! a) @ ''] is being proceesed'')))"

subsection \<open>Runs\<close>

text \<open>
  The jobs. \<open>Submit\<close>, \<open>CancelAll\<close> and \<open>ThrowIfBusy\<close> are the calls of the scheduler's
  methods; \<open>BodySettles a oc\<close> resumes \<^verbatim>\<open>play\<close> of task \<open>a\<close> when its body has settled;
  \<open>PlayThen a\<close> is the reaction chained onto that \<^verbatim>\<open>play\<close>. \<open>CallWith\<close>, \<open>CallOncancel\<close>,
  \<open>CallCheckCanceled\<close> and \<open>CallDispose\<close> are the calls the interface \<^verbatim>\<open>Task\<close> and the
  handle give to a body, and \<open>WaitSettles p oc\<close> is the reaction of \<^verbatim>\<open>with\<close> on the
  operation its promise \<open>p\<close> wraps.
\<close>

datatype event =
    Submit string
  | CancelAll
  | ThrowIfBusy
  | BodySettles nat outcome
  | PlayThen nat
  | CallWith nat
  | CallOncancel nat callback
  | CallCheckCanceled nat
  | CallDispose nat
  | WaitSettles nat outcome

text \<open>
  When a job can happen. A body settles once, while \<^verbatim>\<open>play\<close> awaits it; the reaction of
  \<^verbatim>\<open>play\<close> runs once, after \<^verbatim>\<open>play\<close> has settled. The handle \<^verbatim>\<open>Task\<close> exists for the
  caller from the call of the body on; a caller registers functions of its own, and
  disposes the handles it holds.
\<close>

fun enabled :: "event \<Rightarrow> world \<Rightarrow> bool" where
  "enabled (Submit n) w = True"
| "enabled CancelAll w = True"
| "enabled ThrowIfBusy w = True"
| "enabled (BodySettles a oc) w = (a < length (tasks w) \<and> act (tasks w ! a) = Suspended)"
| "enabled (PlayThen a) w = (a < length (tasks w) \<and> act (tasks w ! a) = Returned)"
| "enabled (CallWith a) w = (a \<in> set (calls w))"
| "enabled (CallOncancel a cb) w = (a \<in> set (calls w) \<and> is_user cb)"
| "enabled (CallCheckCanceled a) w = (a \<in> set (calls w))"
| "enabled (CallDispose h) w = held h w"
| "enabled (WaitSettles p oc) w = (p < length (wrapped w) \<and> waiting (wrapped w ! p))"

text \<open>
  The store after a job; \<open>None\<close> when the job does not end. When the operation that
  \<^verbatim>\<open>with\<close> waits on fulfils, the reaction given to \<^verbatim>\<open>then\<close> runs. When it rejects, the
  reaction given to \<^verbatim>\<open>catch\<close> runs; the promise that \<^verbatim>\<open>waitWith.then(..)\<close> made (line 99)
  is rejected with the same value then, and nothing handles it.
\<close>

fun step :: "event \<Rightarrow> world \<Rightarrow> world option" where
  "step (Submit n) w = Some (snd (Scheduler_task n w))"
| "step CancelAll w = map_option snd (Scheduler_cancel w)"
| "step ThrowIfBusy w = Some w"
| "step (BodySettles a oc) w = Some (TaskImpl_play_resume a oc w)"
| "step (PlayThen a) w = Some (Scheduler_progress (upd_task a (\<lambda>t. t\<lparr>act := Continued\<rparr>) w))"
| "step (CallWith a) w = Some (snd (TaskImpl_with a w))"
| "step (CallOncancel a cb) w = Some (snd (TaskImpl_oncancel a cb w))"
| "step (CallCheckCanceled a) w = Some (snd (TaskImpl_checkCanceled a w))"
| "step (CallDispose h) w = Some (snd (OnCancel_dispose h w))"
| "step (WaitSettles p oc) w =
     Some (let w' = w\<lparr>wrapped := (wrapped w)[p := (wrapped w ! p)\<lparr>waiting := False\<rparr>]\<rparr> in
           case oc of
             Returns v \<Rightarrow> with_then p v w'
           | Throws e \<Rightarrow> with_catch p e (w'\<lparr>unhandled := unhandled w' @ [e]\<rparr>))"

text \<open>
  A run from a store: \<open>None\<close> when an event of the list cannot happen where it stands, or
  a job does not end.
\<close>

fun run :: "event list \<Rightarrow> world \<Rightarrow> world option" where
  "run [] w = Some w"
| "run (e # es) w =
     (if enabled e w then (case step e w of None \<Rightarrow> None | Some w' \<Rightarrow> run es w') else None)"

subsection \<open>Notions for the statements\<close>

text \<open>
  What a loop over listeners calls: every listener up to and including the first that
  throws.
\<close>

fun throws :: "callback \<Rightarrow> bool" where
  "throws (RejectOf p) = False"
| "throws (UserFn i hs None) = False"
| "throws (UserFn i hs (Some e)) = True"

fun upto_throw :: "callback list \<Rightarrow> callback list" where
  "upto_throw [] = []"
| "upto_throw (l # ls) = (if throws l then [l] else l # upto_throw ls)"

text \<open>
  The handles a listener disposes while it runs, and the listeners that leave the array of
  task \<open>a\<close> to the loop: they dispose no handle of that task.
\<close>

fun disposes :: "callback \<Rightarrow> nat list" where
  "disposes (RejectOf p) = []"
| "disposes (UserFn i hs e) = hs"

definition spares :: "nat \<Rightarrow> world \<Rightarrow> callback \<Rightarrow> bool" where
  "spares a w l \<longleftrightarrow> list_all (\<lambda>h. held h w \<longrightarrow> task (handles w ! h) \<noteq> a) (disposes l)"

text \<open>The store a run from the empty lane \<^verbatim>\<open>ftp\<close> ends in.\<close>

definition after :: "event list \<Rightarrow> world" where
  "after evs = the (run evs (init ''ftp''))"

text \<open>
  The first task of the pending chain if there is one, else the reference the next new
  task gets: the tasks from \<open>qstart\<close> on are the pending ones.
\<close>

definition qstart :: "world \<Rightarrow> nat" where
  "qstart w = (case nextTask w of None \<Rightarrow> length (tasks w) | Some k \<Rightarrow> k)"

text \<open>
  What every run keeps true of the store. A \<^verbatim>\<open>next\<close> reference points to a later task;
  the pending chain is the tasks from \<open>qstart\<close> on, linked in order and ending in
  \<^verbatim>\<open>lastTask\<close>; a task in state \<^verbatim>\<open>WAIT\<close> was never played, cancelled, resolved or called;
  no task is in state \<^verbatim>\<open>DONE\<close>, no promise of a task is rejected; the current task was
  taken from the chain and played.
\<close>

definition wellformed :: "world \<Rightarrow> bool" where
  "wellformed w \<longleftrightarrow>
     (\<forall>a b. a < length (tasks w) \<and> nxt (tasks w ! a) = Some b \<longrightarrow> a < b \<and> b < length (tasks w)) \<and>
     (nextTask w = None \<longrightarrow> lastTask w = None) \<and>
     (\<forall>k. nextTask w = Some k \<longrightarrow> k < length (tasks w) \<and> lastTask w = Some (length (tasks w) - 1)) \<and>
     (\<forall>a. qstart w \<le> a \<and> a < length (tasks w) \<longrightarrow>
        state (tasks w ! a) = WAIT \<and>
        nxt (tasks w ! a) = (if Suc a < length (tasks w) then Some (Suc a) else None)) \<and>
     (\<forall>a. a < length (tasks w) \<and> state (tasks w ! a) = WAIT \<longrightarrow>
        act (tasks w ! a) = NotCalled \<and> \<not> cancelled (tasks w ! a) \<and>
        promise (tasks w ! a) = Pending \<and> a \<notin> set (calls w)) \<and>
     (\<forall>a. a < length (tasks w) \<longrightarrow>
        state (tasks w ! a) \<noteq> DONE \<and> act (tasks w ! a) \<noteq> Failed \<and>
        (promise (tasks w ! a) = Pending \<or> promise (tasks w ! a) = Fulfilled Undefined)) \<and>
     (\<forall>c. currentTask w = Some c \<longrightarrow> c < qstart w \<and> state (tasks w ! c) = STARTED) \<and>
     (\<forall>a. a \<in> set (calls w) \<longrightarrow> a < qstart w) \<and>
     qstart w \<le> length (tasks w)"

text \<open>
  The part of the store that the listeners, the handles and the promises of \<^verbatim>\<open>with\<close> do
  not touch.
\<close>

definition strip :: "TaskImpl \<Rightarrow> TaskImpl" where
  "strip t = t\<lparr>cancelListeners := []\<rparr>"

definition core :: "world \<Rightarrow> TaskImpl list \<times> nat option \<times> nat option \<times> nat option \<times> nat list \<times> string" where
  "core w = (map strip (tasks w), currentTask w, nextTask w, lastTask w, calls w, sname w)"

text \<open>The jobs of listeners, handles and waits leave the core as it is.\<close>

fun quiet :: "event \<Rightarrow> bool" where
  "quiet (Submit n) = False"
| "quiet CancelAll = False"
| "quiet (BodySettles a oc) = False"
| "quiet (PlayThen a) = False"
| "quiet e = True"

text \<open>The task after play has resumed.\<close>

definition resumed :: "outcome \<Rightarrow> TaskImpl \<Rightarrow> TaskImpl" where
  "resumed oc t =
     (if oc = Throws CANCELLED then t\<lparr>act := Returned\<rparr>
      else t\<lparr>promise := (if promise t = Pending then Fulfilled Undefined else promise t),
             act := (case (if promise t = Pending then Fulfilled Undefined else promise t) of
                       Rejected e \<Rightarrow> Failed | Fulfilled v \<Rightarrow> Returned | Pending \<Rightarrow> Suspended)\<rparr>)"

text \<open>The store after progress has taken the task k from the chain and played it.\<close>

definition dequeued :: "nat \<Rightarrow> world \<Rightarrow> world" where
  "dequeued k w =
     w\<lparr>tasks := (tasks w)[k := (tasks w ! k)\<lparr>state := STARTED, act := Suspended\<rparr>],
       currentTask := Some k,
       nextTask := (if Suc k < length (tasks w) then Some (Suc k) else None),
       lastTask := (if Suc k < length (tasks w) then lastTask w else None),
       calls := calls w @ [k]\<rparr>"

text \<open>The store after task() has made the task and linked it to the chain.\<close>

definition enqueued :: "string \<Rightarrow> world \<Rightarrow> world" where
  "enqueued n w =
     (case lastTask w of
        Some l \<Rightarrow>
          w\<lparr>tasks := (tasks w @ [new_TaskImpl n])[l := ((tasks w @ [new_TaskImpl n]) ! l)\<lparr>nxt := Some (length (tasks w))\<rparr>],
            lastTask := Some (length (tasks w))\<rparr>
      | None \<Rightarrow>
          w\<lparr>tasks := tasks w @ [new_TaskImpl n],
            nextTask := Some (length (tasks w)), lastTask := Some (length (tasks w))\<rparr>)"

text \<open>
  A task that was dropped from the chain before it was played: it is behind the start of
  the chain and still in state \<^verbatim>\<open>WAIT\<close>.
\<close>

definition discarded :: "nat \<Rightarrow> world \<Rightarrow> bool" where
  "discarded b w \<longleftrightarrow> b < length (tasks w) \<and> b < qstart w \<and> state (tasks w ! b) = WAIT"

text \<open>
  The body of task \<open>a\<close> settles in this job, and not by throwing \<^verbatim>\<open>CANCELLED\<close>: with a
  value, or with any other thrown value.
\<close>

fun settles_other :: "nat \<Rightarrow> event \<Rightarrow> bool" where
  "settles_other a (BodySettles b oc) = (b = a \<and> oc \<noteq> Throws CANCELLED)"
| "settles_other a e = False"


text \<open>The call of \<^verbatim>\<open>play\<close> for task \<open>b\<close> has settled.\<close>

definition settled :: "world \<Rightarrow> nat \<Rightarrow> bool" where
  "settled w b \<longleftrightarrow> b < length (tasks w) \<and> (act (tasks w ! b) = Returned \<or> act (tasks w ! b) = Continued)"


section \<open>Listeners and cancellation of one task\<close>

subsection \<open>What calling listeners changes\<close>

declare fireLoop.simps [simp del]

lemma tasks_settle [simp]: "tasks (settle p s w) = tasks w"
  by (simp add: settle_def)

lemma fired_settle [simp]: "fired (settle p s w) = fired w"
  by (simp add: settle_def)

lemma handles_settle [simp]: "handles (settle p s w) = handles w"
  by (simp add: settle_def)

lemma strip_listeners [simp]: "strip (t\<lparr>cancelListeners := x\<rparr>) = strip t"
  by (simp add: strip_def)

lemma strip_fields:
  assumes "strip t' = strip t"
  shows "state t' = state t" and "act t' = act t" and "promise t' = promise t"
    and "nxt t' = nxt t" and "cancelled t' = cancelled t" and "name t' = name t"
proof -
  have "state (strip t') = state (strip t)" "act (strip t') = act (strip t)"
    "promise (strip t') = promise (strip t)" "nxt (strip t') = nxt (strip t)"
    "cancelled (strip t') = cancelled (strip t)" "name (strip t') = name (strip t)"
    using assms by simp_all
  then show "state t' = state t" and "act t' = act t" and "promise t' = promise t"
    and "nxt t' = nxt t" and "cancelled t' = cancelled t" and "name t' = name t"
    by (simp_all add: strip_def)
qed

text \<open>Writing the listeners of one task leaves the rest of every task as it is.\<close>

lemma strip_upd_listeners [simp]:
  "strip (tasks (upd_task b (\<lambda>t. t\<lparr>cancelListeners := f t\<rparr>) w) ! a) = strip (tasks w ! a)"
  by (cases "a = b"; cases "b < length (tasks w)") (simp_all add: upd_task_def list_update_beyond)

lemma length_upd_task [simp]: "length (tasks (upd_task b f w)) = length (tasks w)"
  by (simp add: upd_task_def)

lemma upd_task_other: "a \<noteq> b \<Longrightarrow> tasks (upd_task b f w) ! a = tasks w ! a"
  by (simp add: upd_task_def)

lemma removed_subset: "set (splice1 i xs) \<subseteq> set xs"
proof -
  have "set (take i xs) \<subseteq> set xs" by (rule set_take_subset)
  moreover have "set (drop (Suc i) xs) \<subseteq> set xs" by (rule set_drop_subset)
  ultimately show ?thesis by (simp add: splice1_def)
qed

text \<open>\<^verbatim>\<open>removeCancelListener\<close> writes the listeners of its task and nothing else.\<close>

lemma remove_strip [simp]:
  "strip (tasks (snd (TaskImpl_removeCancelListener b cb w)) ! a) = strip (tasks w ! a)"
  by (simp add: TaskImpl_removeCancelListener_def Let_def)

lemma remove_length [simp]:
  "length (tasks (snd (TaskImpl_removeCancelListener b cb w))) = length (tasks w)"
  by (simp add: TaskImpl_removeCancelListener_def Let_def)

lemma remove_other:
  "a \<noteq> b \<Longrightarrow> tasks (snd (TaskImpl_removeCancelListener b cb w)) ! a = tasks w ! a"
  by (simp add: TaskImpl_removeCancelListener_def Let_def upd_task_other)

lemma remove_subset:
  "set (cancelListeners (tasks (snd (TaskImpl_removeCancelListener b cb w)) ! a))
     \<subseteq> set (cancelListeners (tasks w ! a))"
  using removed_subset [of _ "cancelListeners (tasks w ! b)"]
  by (cases "a = b"; cases "b < length (tasks w)")
     (auto simp: TaskImpl_removeCancelListener_def Let_def upd_task_def list_update_beyond)

lemma remove_rest [simp]:
  "handles (snd (TaskImpl_removeCancelListener b cb w)) = handles w"
  "wrapped (snd (TaskImpl_removeCancelListener b cb w)) = wrapped w"
  "fired (snd (TaskImpl_removeCancelListener b cb w)) = fired w"
  "messageLog (snd (TaskImpl_removeCancelListener b cb w)) = messageLog w"
  by (simp_all add: TaskImpl_removeCancelListener_def Let_def upd_task_def)

text \<open>\<^verbatim>\<open>dispose()\<close> does that, and clears the target of the handle.\<close>

lemma dispose_strip [simp]:
  "strip (tasks (snd (OnCancel_dispose h w)) ! a) = strip (tasks w ! a)"
  by (simp add: OnCancel_dispose_def Let_def split: option.splits)

lemma dispose_length [simp]:
  "length (tasks (snd (OnCancel_dispose h w))) = length (tasks w)"
  by (simp add: OnCancel_dispose_def Let_def split: option.splits)

lemma dispose_other:
  "task (handles w ! h) \<noteq> a \<Longrightarrow> tasks (snd (OnCancel_dispose h w)) ! a = tasks w ! a"
  by (simp add: OnCancel_dispose_def Let_def remove_other split: option.splits)

lemma dispose_subset:
  "set (cancelListeners (tasks (snd (OnCancel_dispose h w)) ! a))
     \<subseteq> set (cancelListeners (tasks w ! a))"
  using remove_subset [of "task (handles w ! h)" _ w a]
  by (simp add: OnCancel_dispose_def Let_def split: option.splits)

lemma dispose_rest [simp]:
  "wrapped (snd (OnCancel_dispose h w)) = wrapped w"
  "fired (snd (OnCancel_dispose h w)) = fired w"
  "messageLog (snd (OnCancel_dispose h w)) = messageLog w"
  by (simp_all add: OnCancel_dispose_def Let_def split: option.splits)

lemma map_task_target: "map task (hs[h := (hs ! h)\<lparr>target := x\<rparr>]) = map task hs"
  by (cases "h < length hs") (simp_all add: map_update list_update_same_conv list_update_beyond)

lemma dispose_handles [simp]:
  "map task (handles (snd (OnCancel_dispose h w))) = map task (handles w)"
  by (simp add: OnCancel_dispose_def Let_def map_task_target split: option.splits)

lemma dispose_held: "held h w \<Longrightarrow> held k (snd (OnCancel_dispose h w)) = held k w"
proof -
  assume h: "held h w"
  show ?thesis
  proof (cases "target (handles w ! h)")
    case None
    then show ?thesis by (simp add: OnCancel_dispose_def)
  next
    case (Some cb)
    with h have u: "is_user cb" and l: "h < length (handles w)" by (simp_all add: held_def)
    show ?thesis
    proof (cases "k = h")
      case True
      with Some u l h show ?thesis by (simp add: OnCancel_dispose_def Let_def held_def)
    next
      case False
      with Some show ?thesis by (simp add: OnCancel_dispose_def Let_def held_def)
    qed
  qed
qed

text \<open>So does a function of the caller, for every handle it disposes.\<close>

lemma disposals_strip [simp]: "strip (tasks (disposals hs w) ! a) = strip (tasks w ! a)"
  by (induction hs arbitrary: w) simp_all

lemma disposals_length [simp]: "length (tasks (disposals hs w)) = length (tasks w)"
  by (induction hs arbitrary: w) simp_all

lemma disposals_rest [simp]:
  "wrapped (disposals hs w) = wrapped w"
  "fired (disposals hs w) = fired w"
  "messageLog (disposals hs w) = messageLog w"
  by (induction hs arbitrary: w) simp_all

lemma disposals_handles [simp]: "map task (handles (disposals hs w)) = map task (handles w)"
  by (induction hs arbitrary: w) simp_all

lemma disposals_subset:
  "set (cancelListeners (tasks (disposals hs w) ! a)) \<subseteq> set (cancelListeners (tasks w ! a))"
proof (induction hs arbitrary: w)
  case Nil
  then show ?case by simp
next
  case (Cons h hs)
  let ?u = "if held h w then snd (OnCancel_dispose h w) else w"
  have "set (cancelListeners (tasks ?u ! a)) \<subseteq> set (cancelListeners (tasks w ! a))"
    using dispose_subset [of h w a] by simp
  with Cons [of ?u] show ?case by auto
qed

lemma disposals_held [simp]: "held k (disposals hs w) = held k w"
proof (induction hs arbitrary: w)
  case Nil
  then show ?case by simp
next
  case (Cons h hs)
  let ?u = "if held h w then snd (OnCancel_dispose h w) else w"
  have "held k ?u = held k w" by (simp add: dispose_held)
  with Cons [of ?u] show ?case by simp
qed

lemma held_task:
  assumes m: "map task (handles w') = map task (handles w)" and k: "held k w"
  shows "task (handles w' ! k) = task (handles w ! k)"
proof -
  from m have l: "length (handles w') = length (handles w)" by (rule map_eq_imp_length_eq)
  from k have "k < length (handles w)" by (simp add: held_def)
  with m l show ?thesis by (metis nth_map)
qed

lemma disposals_other:
  "list_all (\<lambda>h. held h w \<longrightarrow> task (handles w ! h) \<noteq> a) hs \<Longrightarrow>
   tasks (disposals hs w) ! a = tasks w ! a"
proof (induction hs arbitrary: w)
  case Nil
  then show ?case by simp
next
  case (Cons h hs)
  let ?u = "if held h w then snd (OnCancel_dispose h w) else w"
  have m: "map task (handles ?u) = map task (handles w)" by simp
  have hu: "held k ?u = held k w" for k by (simp add: dispose_held)
  have t: "held k w \<Longrightarrow> task (handles ?u ! k) = task (handles w ! k)" for k
    using m by (rule held_task)
  from Cons.prems have "list_all (\<lambda>h. held h w \<longrightarrow> task (handles w ! h) \<noteq> a) hs" by simp
  then have "list_all (\<lambda>h. held h ?u \<longrightarrow> task (handles ?u ! h) \<noteq> a) hs"
    using hu t by (auto simp: list_all_iff)
  from Cons.IH [OF this] have "tasks (disposals hs ?u) ! a = tasks ?u ! a" .
  moreover have "tasks ?u ! a = tasks w ! a"
  proof (cases "held h w")
    case True
    with Cons.prems have "task (handles w ! h) \<noteq> a" by simp
    with True show ?thesis by (simp add: dispose_other)
  next
    case False
    then show ?thesis by simp
  qed
  ultimately show ?case by simp
qed

text \<open>A call of a listener.\<close>

lemma strip_invoke [simp]: "strip (tasks (snd (invoke cb w)) ! a) = strip (tasks w ! a)"
  by (cases "(cb, w)" rule: invoke.cases) simp_all

lemma length_invoke [simp]: "length (tasks (snd (invoke cb w))) = length (tasks w)"
  by (cases "(cb, w)" rule: invoke.cases) simp_all

lemma handles_invoke [simp]: "map task (handles (snd (invoke cb w))) = map task (handles w)"
  by (cases "(cb, w)" rule: invoke.cases) simp_all

lemma fired_invoke [simp]: "fired (snd (invoke cb w)) = fired w @ [cb]"
  by (cases "(cb, w)" rule: invoke.cases) simp_all

lemma messageLog_settle [simp]: "messageLog (settle p s w) = messageLog w"
  by (simp add: settle_def)

lemma messageLog_invoke [simp]: "messageLog (snd (invoke cb w)) = messageLog w"
  by (cases "(cb, w)" rule: invoke.cases) simp_all

lemma fst_invoke: "(fst (invoke cb w) = Ret ()) = (\<not> throws cb)"
  by (cases "(cb, w)" rule: invoke.cases) simp_all

lemma invoke_subset:
  "set (cancelListeners (tasks (snd (invoke cb w)) ! a)) \<subseteq> set (cancelListeners (tasks w ! a))"
proof (cases "(cb, w)" rule: invoke.cases)
  case (1 p v)
  then show ?thesis by simp
next
  case (2 i hs v)
  with disposals_subset [of hs "v\<lparr>fired := fired v @ [UserFn i hs None]\<rparr>" a] show ?thesis by simp
next
  case (3 i hs e v)
  with disposals_subset [of hs "v\<lparr>fired := fired v @ [UserFn i hs (Some e)]\<rparr>" a] show ?thesis by simp
qed

lemma held_settle [simp]: "held k (settle p s w) = held k w"
  by (simp add: held_def)

lemma held_invoke [simp]: "held k (snd (invoke cb w)) = held k w"
  by (cases "(cb, w)" rule: invoke.cases) (simp_all, simp_all add: held_def)

lemma spares_handles:
  assumes m: "map task (handles w') = map task (handles w)" and h: "\<And>k. held k w' = held k w"
  shows "spares a w' l = spares a w l"
proof -
  have "held k w \<Longrightarrow> task (handles w' ! k) = task (handles w ! k)" for k
    using m by (rule held_task)
  with h show ?thesis by (auto simp: spares_def list_all_iff)
qed

lemma invoke_spared: "spares a w cb \<Longrightarrow> tasks (snd (invoke cb w)) ! a = tasks w ! a"
proof (cases "(cb, w)" rule: invoke.cases)
  case (1 p v)
  then show ?thesis by simp
next
  case (2 i hs v)
  assume "spares a w cb"
  with 2 have "list_all (\<lambda>h. held h (v\<lparr>fired := fired v @ [UserFn i hs None]\<rparr>) \<longrightarrow>
      task (handles (v\<lparr>fired := fired v @ [UserFn i hs None]\<rparr>) ! h) \<noteq> a) hs"
    by (simp add: spares_def held_def)
  from disposals_other [OF this] 2 show ?thesis by simp
next
  case (3 i hs e v)
  assume "spares a w cb"
  with 3 have "list_all (\<lambda>h. held h (v\<lparr>fired := fired v @ [UserFn i hs (Some e)]\<rparr>) \<longrightarrow>
      task (handles (v\<lparr>fired := fired v @ [UserFn i hs (Some e)]\<rparr>) ! h) \<noteq> a) hs"
    by (simp add: spares_def held_def)
  from disposals_other [OF this] 3 show ?thesis by simp
qed

lemma invoke_plain: "disposes cb = [] \<Longrightarrow> tasks (snd (invoke cb w)) = tasks w"
  by (cases "(cb, w)" rule: invoke.cases) simp_all

text \<open>The loop, one turn at a time.\<close>

lemma fireLoop_end:
  "\<not> i < length (cancelListeners (tasks w ! a)) \<Longrightarrow> fireLoop a i w = (Ret (), w)"
  by (subst fireLoop.simps) simp

lemma fireLoop_throw:
  "i < length (cancelListeners (tasks w ! a)) \<Longrightarrow>
   invoke (cancelListeners (tasks w ! a) ! i) w = (Throw e, u) \<Longrightarrow> fireLoop a i w = (Throw e, u)"
  by (subst fireLoop.simps) simp

lemma fireLoop_next:
  "i < length (cancelListeners (tasks w ! a)) \<Longrightarrow>
   invoke (cancelListeners (tasks w ! a) ! i) w = (Ret x, u) \<Longrightarrow>
   fireLoop a i w = fireLoop a (Suc i) u"
  by (subst fireLoop.simps) simp

text \<open>What every call of a listener keeps, the loop keeps.\<close>

lemma fireLoop_rel:
  assumes refl: "\<And>w. R w w" and trans: "\<And>u v w. R u v \<Longrightarrow> R v w \<Longrightarrow> R u w"
    and inv: "\<And>cb w. R w (snd (invoke cb w))"
  shows "R w (snd (fireLoop a i w))"
proof (induction a i w rule: fireLoop.induct)
  case (1 a i w)
  show ?case
  proof (cases "i < length (cancelListeners (tasks w ! a))")
    case False
    then show ?thesis by (simp add: fireLoop_end refl)
  next
    case True
    obtain r u where iv: "invoke (cancelListeners (tasks w ! a) ! i) w = (r, u)"
      by (cases "invoke (cancelListeners (tasks w ! a) ! i) w")
    then have u: "u = snd (invoke (cancelListeners (tasks w ! a) ! i) w)" by simp
    have wu: "R w u" unfolding u by (rule inv)
    show ?thesis
    proof (cases r)
      case (Ret x)
      from 1 [OF True iv [symmetric] Ret] have "R u (snd (fireLoop a (Suc i) u))" .
      with wu have "R w (snd (fireLoop a (Suc i) u))" by (rule trans)
      with fireLoop_next [OF True iv [unfolded Ret]] show ?thesis by simp
    next
      case (Throw e)
      with fireLoop_throw [OF True iv [unfolded Throw]] wu show ?thesis by simp
    qed
  qed
qed

lemma fireLoop_keeps:
  assumes "\<And>cb w. f (snd (invoke cb w)) = f w"
  shows "f (snd (fireLoop a i w)) = f w"
  by (rule fireLoop_rel [where R = "\<lambda>w w'. f w' = f w"]) (simp_all add: assms)

lemma fireLoop_strip [simp]: "strip (tasks (snd (fireLoop a i w)) ! b) = strip (tasks w ! b)"
  by (rule fireLoop_keeps [where f = "\<lambda>w. strip (tasks w ! b)"]) simp

lemma fireLoop_length [simp]: "length (tasks (snd (fireLoop a i w))) = length (tasks w)"
  by (rule fireLoop_keeps [where f = "\<lambda>w. length (tasks w)"]) simp

lemma fireLoop_handles [simp]: "map task (handles (snd (fireLoop a i w))) = map task (handles w)"
  by (rule fireLoop_keeps [where f = "\<lambda>w. map task (handles w)"]) simp

lemma messageLog_fireLoop [simp]: "messageLog (snd (fireLoop a i w)) = messageLog w"
  by (rule fireLoop_keeps [where f = messageLog]) simp

lemma fireLoop_subset:
  "set (cancelListeners (tasks (snd (fireLoop a i w)) ! b)) \<subseteq> set (cancelListeners (tasks w ! b))"
  by (rule fireLoop_rel [where R = "\<lambda>w w'. set (cancelListeners (tasks w' ! b)) \<subseteq> set (cancelListeners (tasks w ! b))"])
     (auto intro: invoke_subset [THEN subsetD])

text \<open>
  What the loop calls, whichever handles the listeners dispose: listeners of the array
  only, and the one at its position first; it throws exactly when a listener it calls
  throws, and that one is the last it calls.
\<close>

lemma fireLoop_calls:
  "\<exists>fs. fired (snd (fireLoop a i w)) = fired w @ fs \<and>
        set fs \<subseteq> set (cancelListeners (tasks w ! a)) \<and>
        (fst (fireLoop a i w) \<noteq> Ret () \<longrightarrow> fs \<noteq> [] \<and> throws (last fs)) \<and>
        (i < length (cancelListeners (tasks w ! a)) \<longrightarrow>
           fs \<noteq> [] \<and> hd fs = cancelListeners (tasks w ! a) ! i) \<and>
        (fst (fireLoop a i w) = Ret ()) = (\<not> list_ex throws fs) \<and>
        \<not> list_ex throws (butlast fs)"
proof (induction a i w rule: fireLoop.induct)
  case (1 a i w)
  let ?ls = "cancelListeners (tasks w ! a)"
  show ?case
  proof (cases "i < length ?ls")
    case False
    then show ?thesis by (simp add: fireLoop_end)
  next
    case True
    obtain r u where iv: "invoke (?ls ! i) w = (r, u)" by (cases "invoke (?ls ! i) w")
    then have u: "u = snd (invoke (?ls ! i) w)" and r: "r = fst (invoke (?ls ! i) w)" by simp_all
    have fu: "fired u = fired w @ [?ls ! i]" unfolding u by simp
    have su: "set (cancelListeners (tasks u ! a)) \<subseteq> set ?ls" unfolding u by (rule invoke_subset)
    have mem: "?ls ! i \<in> set ?ls" using True by simp
    show ?thesis
    proof (cases r)
      case (Ret x)
      from 1 [OF True iv [symmetric] Ret] obtain fs where
        fs: "fired (snd (fireLoop a (Suc i) u)) = fired u @ fs"
          "set fs \<subseteq> set (cancelListeners (tasks u ! a))"
          "fst (fireLoop a (Suc i) u) \<noteq> Ret () \<longrightarrow> fs \<noteq> [] \<and> throws (last fs)"
          "(fst (fireLoop a (Suc i) u) = Ret ()) = (\<not> list_ex throws fs)"
          "\<not> list_ex throws (butlast fs)"
        by blast
      have nt: "\<not> throws (?ls ! i)" using fst_invoke [of "?ls ! i" w] iv Ret by simp
      have eq: "fireLoop a i w = fireLoop a (Suc i) u"
        using True iv [unfolded Ret] by (rule fireLoop_next)
      have "fired (snd (fireLoop a i w)) = fired w @ (?ls ! i # fs)"
        using eq fs(1) fu by simp
      moreover have "set (?ls ! i # fs) \<subseteq> set ?ls" using mem fs(2) su by auto
      moreover have "fst (fireLoop a i w) \<noteq> Ret () \<longrightarrow> (?ls ! i # fs) \<noteq> [] \<and> throws (last (?ls ! i # fs))"
        using eq fs(3) by auto
      moreover have "(?ls ! i # fs) \<noteq> [] \<and> hd (?ls ! i # fs) = ?ls ! i" by simp
      moreover have "(fst (fireLoop a i w) = Ret ()) = (\<not> list_ex throws (?ls ! i # fs))"
        using eq fs(4) nt by simp
      moreover have "\<not> list_ex throws (butlast (?ls ! i # fs))"
        using fs(5) nt by simp
      ultimately show ?thesis by blast
    next
      case (Throw e)
      have eq: "fireLoop a i w = (Throw e, u)"
        using True iv [unfolded Throw] by (rule fireLoop_throw)
      have th: "throws (?ls ! i)" using fst_invoke [of "?ls ! i" w] iv Throw by simp
      have "fired (snd (fireLoop a i w)) = fired w @ [?ls ! i]" using eq fu by simp
      moreover have "set [?ls ! i] \<subseteq> set ?ls" using mem by simp
      moreover have "[?ls ! i] \<noteq> [] \<and> throws (last [?ls ! i])" using th by simp
      moreover have "hd [?ls ! i] = ?ls ! i" by simp
      moreover have "(fst (fireLoop a i w) = Ret ()) = (\<not> list_ex throws [?ls ! i])"
        using eq th by simp
      moreover have "\<not> list_ex throws (butlast [?ls ! i])" by simp
      ultimately show ?thesis by blast
    qed
  qed
qed

text \<open>
  When the listeners it calls leave the array of the task alone, the loop calls the
  listeners from its position on, in order, up to and including the first that throws,
  and the array is the same afterwards.
\<close>

lemma upto_throw_all: "\<not> list_ex throws ls \<Longrightarrow> upto_throw ls = ls"
  by (induction ls) auto

lemma set_upto_throw: "set (upto_throw ls) \<subseteq> set ls"
  by (induction ls) auto

lemma fireLoop_spared:
  "list_all (spares a w) (upto_throw (drop i (cancelListeners (tasks w ! a)))) \<Longrightarrow>
   tasks (snd (fireLoop a i w)) ! a = tasks w ! a \<and>
   fired (snd (fireLoop a i w)) = fired w @ upto_throw (drop i (cancelListeners (tasks w ! a))) \<and>
   (fst (fireLoop a i w) = Ret ()) = (\<not> list_ex throws (drop i (cancelListeners (tasks w ! a))))"
proof (induction a i w rule: fireLoop.induct)
  case (1 a i w)
  let ?ls = "cancelListeners (tasks w ! a)"
  show ?case
  proof (cases "i < length ?ls")
    case False
    then show ?thesis by (simp add: fireLoop_end)
  next
    case True
    let ?l = "?ls ! i"
    have d: "drop i ?ls = ?l # drop (Suc i) ?ls" using True by (simp add: Cons_nth_drop_Suc)
    obtain r u where iv: "invoke ?l w = (r, u)" by (cases "invoke ?l w")
    then have u: "u = snd (invoke ?l w)" and r: "r = fst (invoke ?l w)" by simp_all
    from "1.prems" d have sp: "spares a w ?l" by (simp split: if_splits)
    have ua: "tasks u ! a = tasks w ! a" unfolding u using sp by (rule invoke_spared)
    have fu: "fired u = fired w @ [?l]" unfolding u by simp
    have hu: "map task (handles u) = map task (handles w)" unfolding u by simp
    show ?thesis
    proof (cases r)
      case (Ret x)
      have nt: "\<not> throws ?l" using fst_invoke [of ?l w] iv Ret by simp
      from "1.prems" d nt have "list_all (spares a w) (upto_throw (drop (Suc i) ?ls))" by simp
      then have "list_all (spares a u) (upto_throw (drop (Suc i) (cancelListeners (tasks u ! a))))"
        using ua spares_handles [OF hu, of a] unfolding u by (simp add: list_all_iff)
      from "1.IH" [OF True iv [symmetric] Ret this]
      have ih: "tasks (snd (fireLoop a (Suc i) u)) ! a = tasks u ! a"
        "fired (snd (fireLoop a (Suc i) u)) = fired u @ upto_throw (drop (Suc i) ?ls)"
        "(fst (fireLoop a (Suc i) u) = Ret ()) = (\<not> list_ex throws (drop (Suc i) ?ls))"
        using ua by simp_all
      have eq: "fireLoop a i w = fireLoop a (Suc i) u"
        using True iv [unfolded Ret] by (rule fireLoop_next)
      show ?thesis unfolding eq d using ih ua fu nt by simp
    next
      case (Throw e)
      have th: "throws ?l" using fst_invoke [of ?l w] iv Throw by simp
      have eq: "fireLoop a i w = (Throw e, u)"
        using True iv [unfolded Throw] by (rule fireLoop_throw)
      show ?thesis unfolding eq d using ua fu th by simp
    qed
  qed
qed

subsection \<open>What cancel() changes\<close>

lemma listeners_flag [simp]:
  "cancelListeners (tasks (upd_task a (\<lambda>t. t\<lparr>cancelled := True\<rparr>) w) ! a) = cancelListeners (tasks w ! a)"
  by (cases "a < length (tasks w)") (simp_all add: upd_task_def list_update_beyond)

lemma spares_flag [simp]: "spares a (upd_task b f w) l = spares a w l"
  by (simp add: spares_def upd_task_def held_def)

lemma cancel_again: "cancelled (tasks w ! a) \<Longrightarrow> TaskImpl_cancel a w = (Ret (), w)"
  by (simp add: TaskImpl_cancel_def)

lemma fireCancel_snd:
  "snd (fireCancel a w) =
     (if fst (fireLoop a 0 w) = Ret () then upd_task a (\<lambda>t. t\<lparr>cancelListeners := []\<rparr>) (snd (fireLoop a 0 w))
      else snd (fireLoop a 0 w))"
  by (cases "fireLoop a 0 w"; cases "fst (fireLoop a 0 w)") (auto simp: fireCancel_def)

lemma fireCancel_fst: "fst (fireCancel a w) = fst (fireLoop a 0 w)"
  by (cases "fireLoop a 0 w"; cases "fst (fireLoop a 0 w)") (auto simp: fireCancel_def)

lemma cancel_snd:
  "\<not> cancelled (tasks w ! a) \<Longrightarrow>
   snd (TaskImpl_cancel a w) = snd (fireCancel a (upd_task a (\<lambda>t. t\<lparr>cancelled := True\<rparr>) w))"
  by (simp add: TaskImpl_cancel_def)

lemma cancel_strip:
  "strip (tasks (snd (TaskImpl_cancel a w)) ! b) =
     strip (tasks (if cancelled (tasks w ! a) then w else upd_task a (\<lambda>t. t\<lparr>cancelled := True\<rparr>) w) ! b)"
  by (simp add: TaskImpl_cancel_def fireCancel_snd)

lemma cancel_length [simp]: "length (tasks (snd (TaskImpl_cancel a w))) = length (tasks w)"
  by (simp add: TaskImpl_cancel_def fireCancel_snd)

lemma cancel_handles [simp]:
  "map task (handles (snd (TaskImpl_cancel a w))) = map task (handles w)"
  by (simp add: TaskImpl_cancel_def fireCancel_snd upd_task_def)

lemma messageLog_cancel [simp]: "messageLog (snd (TaskImpl_cancel a w)) = messageLog w"
  by (simp add: TaskImpl_cancel_def fireCancel_snd upd_task_def)

lemma cancel_frame:
  "promise (tasks (snd (TaskImpl_cancel a w)) ! b) = promise (tasks w ! b) \<and>
   state (tasks (snd (TaskImpl_cancel a w)) ! b) = state (tasks w ! b) \<and>
   act (tasks (snd (TaskImpl_cancel a w)) ! b) = act (tasks w ! b) \<and>
   nxt (tasks (snd (TaskImpl_cancel a w)) ! b) = nxt (tasks w ! b) \<and>
   name (tasks (snd (TaskImpl_cancel a w)) ! b) = name (tasks w ! b)"
proof -
  let ?u = "if cancelled (tasks w ! a) then w else upd_task a (\<lambda>t. t\<lparr>cancelled := True\<rparr>) w"
  note f = strip_fields [OF cancel_strip [of a w b]]
  have "promise (tasks ?u ! b) = promise (tasks w ! b) \<and> state (tasks ?u ! b) = state (tasks w ! b) \<and>
     act (tasks ?u ! b) = act (tasks w ! b) \<and> nxt (tasks ?u ! b) = nxt (tasks w ! b) \<and>
     name (tasks ?u ! b) = name (tasks w ! b)"
    by (cases "a < length (tasks w)"; cases "a = b") (simp_all add: upd_task_def list_update_beyond)
  with f show ?thesis by simp
qed

lemma cancel_flag: "a < length (tasks w) \<Longrightarrow> cancelled (tasks (snd (TaskImpl_cancel a w)) ! a)"
proof -
  assume a: "a < length (tasks w)"
  let ?u = "if cancelled (tasks w ! a) then w else upd_task a (\<lambda>t. t\<lparr>cancelled := True\<rparr>) w"
  have "cancelled (tasks ?u ! a)" using a by (simp add: upd_task_def)
  with strip_fields(5) [OF cancel_strip [of a w a]] show ?thesis by simp
qed

lemma cancel_subset:
  "set (cancelListeners (tasks (snd (TaskImpl_cancel a w)) ! b)) \<subseteq> set (cancelListeners (tasks w ! b))"
proof (cases "cancelled (tasks w ! a)")
  case True
  then show ?thesis by (simp add: cancel_again)
next
  case False
  let ?u = "upd_task a (\<lambda>t. t\<lparr>cancelled := True\<rparr>) w"
  let ?v = "snd (fireLoop a 0 ?u)"
  have u: "set (cancelListeners (tasks ?u ! b)) \<subseteq> set (cancelListeners (tasks w ! b))"
    by (cases "a < length (tasks w)"; cases "a = b") (simp_all add: upd_task_def list_update_beyond)
  have v: "set (cancelListeners (tasks ?v ! b)) \<subseteq> set (cancelListeners (tasks ?u ! b))"
    by (rule fireLoop_subset)
  have "set (cancelListeners (tasks (upd_task a (\<lambda>t. t\<lparr>cancelListeners := []\<rparr>) ?v) ! b))
      \<subseteq> set (cancelListeners (tasks ?v ! b))"
    by (cases "a < length (tasks ?v)"; cases "a = b") (simp_all add: upd_task_def list_update_beyond)
  with u v show ?thesis using False by (auto simp: cancel_snd fireCancel_snd)
qed

text \<open>
  The first \<^verbatim>\<open>cancel()\<close> of a task, whichever handles its listeners dispose: it calls
  registered listeners only, the first of them in any case; it throws exactly when a
  listener it calls throws, and that one is the last it calls.
\<close>

lemma cancel_calls:
  assumes nc: "\<not> cancelled (tasks w ! a)"
  shows "\<exists>fs. fired (snd (TaskImpl_cancel a w)) = fired w @ fs \<and>
        set fs \<subseteq> set (cancelListeners (tasks w ! a)) \<and>
        (fst (TaskImpl_cancel a w) \<noteq> Ret () \<longrightarrow> fs \<noteq> [] \<and> throws (last fs)) \<and>
        (cancelListeners (tasks w ! a) \<noteq> [] \<longrightarrow> fs \<noteq> [] \<and> hd fs = hd (cancelListeners (tasks w ! a))) \<and>
        (fst (TaskImpl_cancel a w) = Ret ()) = (\<not> list_ex throws fs) \<and>
        \<not> list_ex throws (butlast fs)"
proof -
  let ?u = "upd_task a (\<lambda>t. t\<lparr>cancelled := True\<rparr>) w"
  let ?ls = "cancelListeners (tasks w ! a)"
  from fireLoop_calls [of a 0 ?u] obtain fs where
    fs: "fired (snd (fireLoop a 0 ?u)) = fired ?u @ fs" "set fs \<subseteq> set ?ls"
      "fst (fireLoop a 0 ?u) \<noteq> Ret () \<longrightarrow> fs \<noteq> [] \<and> throws (last fs)"
      "0 < length ?ls \<longrightarrow> fs \<noteq> [] \<and> hd fs = ?ls ! 0"
      "(fst (fireLoop a 0 ?u) = Ret ()) = (\<not> list_ex throws fs)"
      "\<not> list_ex throws (butlast fs)"
    by auto
  have f: "fired (snd (TaskImpl_cancel a w)) = fired w @ fs"
    using nc fs(1) by (simp add: cancel_snd fireCancel_snd upd_task_def)
  have r: "fst (TaskImpl_cancel a w) = fst (fireLoop a 0 ?u)"
    using nc by (simp add: TaskImpl_cancel_def fireCancel_fst)
  have h: "?ls \<noteq> [] \<longrightarrow> fs \<noteq> [] \<and> hd fs = hd ?ls"
    using fs(4) by (cases "cancelListeners (tasks w ! a)") simp_all
  from f fs(2) fs(3) r h fs(5) fs(6) show ?thesis by auto
qed

lemma cancel_no_throw:
  "\<not> list_ex throws (cancelListeners (tasks w ! a)) \<Longrightarrow> fst (TaskImpl_cancel a w) = Ret ()"
proof (cases "cancelled (tasks w ! a)")
  case True
  then show ?thesis by (simp add: cancel_again)
next
  case False
  assume nt: "\<not> list_ex throws (cancelListeners (tasks w ! a))"
  from cancel_calls [OF False] obtain fs where
    fs: "set fs \<subseteq> set (cancelListeners (tasks w ! a))"
      "fst (TaskImpl_cancel a w) \<noteq> Ret () \<longrightarrow> fs \<noteq> [] \<and> throws (last fs)"
    by blast
  show ?thesis
  proof (rule ccontr)
    assume "fst (TaskImpl_cancel a w) \<noteq> Ret ()"
    with fs(2) have "fs \<noteq> []" and "throws (last fs)" by simp_all
    then have "last fs \<in> set fs" by simp
    with fs(1) have "last fs \<in> set (cancelListeners (tasks w ! a))" by blast
    with \<open>throws (last fs)\<close> nt show False by (auto simp: list_ex_iff)
  qed
qed

lemma cancel_cleared:
  "a < length (tasks w) \<Longrightarrow> \<not> cancelled (tasks w ! a) \<Longrightarrow> fst (TaskImpl_cancel a w) = Ret () \<Longrightarrow>
   cancelListeners (tasks (snd (TaskImpl_cancel a w)) ! a) = []"
  by (simp add: TaskImpl_cancel_def fireCancel_fst fireCancel_snd upd_task_def)

text \<open>
  The first \<^verbatim>\<open>cancel()\<close> of a task whose listeners, as far as they are called, dispose
  no handle of this task.
\<close>

lemma cancel_spared:
  assumes a: "a < length (tasks w)" and nc: "\<not> cancelled (tasks w ! a)"
    and sp: "list_all (spares a w) (upto_throw (cancelListeners (tasks w ! a)))"
  shows "fired (snd (TaskImpl_cancel a w)) = fired w @ upto_throw (cancelListeners (tasks w ! a))"
    and "(fst (TaskImpl_cancel a w) = Ret ()) = (\<not> list_ex throws (cancelListeners (tasks w ! a)))"
    and "cancelListeners (tasks (snd (TaskImpl_cancel a w)) ! a) =
       (if list_ex throws (cancelListeners (tasks w ! a)) then cancelListeners (tasks w ! a) else [])"
proof -
  let ?u = "upd_task a (\<lambda>t. t\<lparr>cancelled := True\<rparr>) w"
  let ?ls = "cancelListeners (tasks w ! a)"
  have "list_all (spares a ?u) (upto_throw (drop 0 (cancelListeners (tasks ?u ! a))))"
    using sp by (simp add: list_all_iff)
  from fireLoop_spared [OF this]
  have l: "tasks (snd (fireLoop a 0 ?u)) ! a = tasks ?u ! a"
    "fired (snd (fireLoop a 0 ?u)) = fired ?u @ upto_throw ?ls"
    "(fst (fireLoop a 0 ?u) = Ret ()) = (\<not> list_ex throws ?ls)"
    by simp_all
  show "fired (snd (TaskImpl_cancel a w)) = fired w @ upto_throw ?ls"
    using nc l(2) by (simp add: cancel_snd fireCancel_snd upd_task_def)
  show "(fst (TaskImpl_cancel a w) = Ret ()) = (\<not> list_ex throws ?ls)"
    using nc l(3) by (simp add: TaskImpl_cancel_def fireCancel_fst)
  show "cancelListeners (tasks (snd (TaskImpl_cancel a w)) ! a) = (if list_ex throws ?ls then ?ls else [])"
    using nc a l(1) l(3) by (simp add: cancel_snd fireCancel_snd upd_task_def)
qed

text \<open>Listeners that dispose nothing leave every array as it is.\<close>

lemma fireLoop_plain:
  "list_all (\<lambda>l. disposes l = []) (cancelListeners (tasks w ! a)) \<Longrightarrow>
   tasks (snd (fireLoop a i w)) = tasks w"
proof (induction a i w rule: fireLoop.induct)
  case (1 a i w)
  let ?ls = "cancelListeners (tasks w ! a)"
  show ?case
  proof (cases "i < length ?ls")
    case False
    then show ?thesis by (simp add: fireLoop_end)
  next
    case True
    obtain r u where iv: "invoke (?ls ! i) w = (r, u)" by (cases "invoke (?ls ! i) w")
    then have u: "u = snd (invoke (?ls ! i) w)" by simp
    from "1.prems" True have "disposes (?ls ! i) = []" by (simp add: list_all_length)
    then have tu: "tasks u = tasks w" unfolding u by (rule invoke_plain)
    show ?thesis
    proof (cases r)
      case (Ret x)
      from "1.prems" tu have "list_all (\<lambda>l. disposes l = []) (cancelListeners (tasks u ! a))" by simp
      from "1.IH" [OF True iv [symmetric] Ret this] tu
      have "tasks (snd (fireLoop a (Suc i) u)) = tasks w" by simp
      with fireLoop_next [OF True iv [unfolded Ret]] show ?thesis by simp
    next
      case (Throw e)
      with fireLoop_throw [OF True iv [unfolded Throw]] tu show ?thesis by simp
    qed
  qed
qed

lemma cancel_plain:
  assumes p: "list_all (\<lambda>l. disposes l = []) (cancelListeners (tasks w ! a))" and b: "b \<noteq> a"
  shows "tasks (snd (TaskImpl_cancel a w)) ! b = tasks w ! b"
proof (cases "cancelled (tasks w ! a)")
  case True
  then show ?thesis by (simp add: cancel_again)
next
  case False
  let ?u = "upd_task a (\<lambda>t. t\<lparr>cancelled := True\<rparr>) w"
  have "list_all (\<lambda>l. disposes l = []) (cancelListeners (tasks ?u ! a))" using p by simp
  then have "tasks (snd (fireLoop a 0 ?u)) = tasks ?u" by (rule fireLoop_plain)
  then show ?thesis using False b by (simp add: cancel_snd fireCancel_snd upd_task_other)
qed

subsection \<open>Removing a listener\<close>

lemma lastIndexOf_ge: "- 1 \<le> lastIndexOf xs x"
  by (induction xs) auto

lemma lastIndexOf_notin: "(lastIndexOf xs x = - 1) = (x \<notin> set xs)"
proof (induction xs)
  case Nil
  then show ?case by simp
next
  case (Cons y ys)
  have "- 1 \<le> lastIndexOf ys x" by (rule lastIndexOf_ge)
  with Cons show ?case by auto
qed

lemma lastIndexOf_last: "x \<notin> set ys \<Longrightarrow> lastIndexOf (xs @ x # ys) x = int (length xs)"
proof (induction xs)
  case Nil
  then show ?case by (simp add: lastIndexOf_notin)
next
  case (Cons y xs)
  then show ?case by simp
qed

lemma splice1_at: "splice1 (length xs) (xs @ x # ys) = xs @ ys"
  by (simp add: splice1_def)

lemma remove_absent:
  "cb \<notin> set (cancelListeners (tasks w ! a)) \<Longrightarrow> TaskImpl_removeCancelListener a cb w = (Ret False, w)"
  by (simp add: TaskImpl_removeCancelListener_def lastIndexOf_notin)

lemma remove_last:
  "cancelListeners (tasks w ! a) = xs @ cb # ys \<Longrightarrow> cb \<notin> set ys \<Longrightarrow>
   TaskImpl_removeCancelListener a cb w =
     (Ret True, upd_task a (\<lambda>t. t\<lparr>cancelListeners := xs @ ys\<rparr>) w)"
  by (simp add: TaskImpl_removeCancelListener_def lastIndexOf_last splice1_at upd_task_def)

lemma split_last_occurrence:
  "x \<in> set ls \<Longrightarrow> \<exists>xs ys. ls = xs @ x # ys \<and> x \<notin> set ys"
  by (rule split_list_last)

lemma oncancel_pending:
  "\<not> cancelled (tasks w ! a) \<Longrightarrow>
   TaskImpl_oncancel a cb w =
     (Ret (length (handles w)),
      (upd_task a (\<lambda>t. t\<lparr>cancelListeners := cancelListeners t @ [cb]\<rparr>) w)
        \<lparr>handles := handles w @ [\<lparr>task = a, target = Some cb\<rparr>]\<rparr>)"
  by (simp add: TaskImpl_oncancel_def new_OnCancel_def upd_task_def)


lemma dispose_last:
  assumes "h < length (handles w)" and "handles w ! h = \<lparr>task = a, target = Some cb\<rparr>"
    and "cancelListeners (tasks w ! a) = xs @ cb # ys" and "cb \<notin> set ys"
  shows "OnCancel_dispose h w =
     (Ret (), (upd_task a (\<lambda>t. t\<lparr>cancelListeners := xs @ ys\<rparr>) w)
        \<lparr>handles := (handles w)[h := \<lparr>task = a, target = None\<rparr>]\<rparr>)"
  using assms by (simp add: OnCancel_dispose_def remove_last upd_task_def)





subsection \<open>Cancelling a task\<close>

text \<open>
  Claim C7, as the code has it. \<^verbatim>\<open>cancel()\<close> on a cancelled task changes nothing, so a
  second request has no effect. The first request sets the flag and walks the array of
  listeners by position. Whichever handles the listeners dispose, the loop calls
  entries of the array only and the first of them in any case; it throws exactly when a
  listener it calls throws, and that listener is the last one called; when it returns,
  the array is empty. When the listeners that are called dispose no
  handle of the task, they are the registered ones in registration order, each once, up
  to and including the first one that throws (\<open>upto_throw\<close>): if none throws, all of them
  are called and the array is emptied; if one throws, \<^verbatim>\<open>cancel()\<close> throws, the listeners
  after it are not called and the array is left as it was. The claim's last part (an
  exception of a listener is tolerated so that later listeners still run) is what the
  code does not do.
\<close>

theorem cancel_idempotent_stops_at_throw:
  "a < length (tasks w) \<Longrightarrow> TaskImpl_cancel a w = (r, w') \<Longrightarrow> ls = cancelListeners (tasks w ! a) \<Longrightarrow>
     cancelled (tasks w' ! a) \<and> TaskImpl_cancel a w' = (Ret (), w') \<and>
     (if cancelled (tasks w ! a) then r = Ret () \<and> w' = w
      else (\<exists>fs. fired w' = fired w @ fs \<and> set fs \<subseteq> set ls \<and>
                 (ls \<noteq> [] \<longrightarrow> fs \<noteq> [] \<and> hd fs = hd ls) \<and>
                 (r = Ret ()) = (\<not> list_ex throws fs) \<and>
                 \<not> list_ex throws (butlast fs)) \<and>
           (r = Ret () \<longrightarrow> cancelListeners (tasks w' ! a) = []) \<and>
           (list_all (spares a w) (upto_throw ls) \<longrightarrow>
              fired w' = fired w @ upto_throw ls \<and>
              (if list_ex throws ls then r \<noteq> Ret () \<and> cancelListeners (tasks w' ! a) = ls
               else r = Ret () \<and> upto_throw ls = ls \<and> cancelListeners (tasks w' ! a) = [])))"
proof -
  assume a: "a < length (tasks w)" and c: "TaskImpl_cancel a w = (r, w')"
    and ls: "ls = cancelListeners (tasks w ! a)"
  have w': "w' = snd (TaskImpl_cancel a w)" and r: "r = fst (TaskImpl_cancel a w)"
    using c by simp_all
  have flag: "cancelled (tasks w' ! a)"
    unfolding w' using a by (rule cancel_flag)
  then have again: "TaskImpl_cancel a w' = (Ret (), w')"
    by (rule cancel_again)
  show ?thesis
  proof (cases "cancelled (tasks w ! a)")
    case True
    then show ?thesis using flag again c by (simp add: cancel_again)
  next
    case False
    from cancel_calls [OF False]
    have general: "\<exists>fs. fired w' = fired w @ fs \<and> set fs \<subseteq> set ls \<and>
                 (ls \<noteq> [] \<longrightarrow> fs \<noteq> [] \<and> hd fs = hd ls) \<and>
                 (r = Ret ()) = (\<not> list_ex throws fs) \<and>
                 \<not> list_ex throws (butlast fs)"
      unfolding w' r ls by blast
    have cleared: "r = Ret () \<longrightarrow> cancelListeners (tasks w' ! a) = []"
      unfolding w' r using a False by (simp add: cancel_cleared)
    have spared: "list_all (spares a w) (upto_throw ls) \<longrightarrow>
              fired w' = fired w @ upto_throw ls \<and>
              (if list_ex throws ls then r \<noteq> Ret () \<and> cancelListeners (tasks w' ! a) = ls
               else r = Ret () \<and> upto_throw ls = ls \<and> cancelListeners (tasks w' ! a) = [])"
    proof
      assume "list_all (spares a w) (upto_throw ls)"
      then have sp: "list_all (spares a w) (upto_throw (cancelListeners (tasks w ! a)))"
        by (simp add: ls)
      note s = cancel_spared [OF a False sp]
      show "fired w' = fired w @ upto_throw ls \<and>
              (if list_ex throws ls then r \<noteq> Ret () \<and> cancelListeners (tasks w' ! a) = ls
               else r = Ret () \<and> upto_throw ls = ls \<and> cancelListeners (tasks w' ! a) = [])"
        unfolding w' r ls using s by (simp add: upto_throw_all)
    qed
    from flag again False general cleared spared show ?thesis by simp
  qed
qed

theorem cancel_idempotent_stops_at_throw_witness:
  "(let w = after [Submit ''A'', CallOncancel 0 (UserFn 9 [] None), BodySettles 0 (Returns Undefined),
                   PlayThen 0, Submit ''B'', CallOncancel 1 (UserFn 1 [0] None),
                   CallOncancel 1 (UserFn 2 [] None)];
        w' = snd (TaskImpl_cancel 1 w)
    in 1 < length (tasks w) \<and> \<not> cancelled (tasks w ! 1) \<and>
       cancelListeners (tasks w ! 1) = [UserFn 1 [0] None, UserFn 2 [] None] \<and>
       list_all (spares 1 w) (upto_throw (cancelListeners (tasks w ! 1))) \<and>
       cancelled (tasks w' ! 1) \<and>
       TaskImpl_cancel 1 w' = (Ret (), w') \<and>
       fst (TaskImpl_cancel 1 w) = Ret () \<and>
       fired w' = [UserFn 1 [0] None, UserFn 2 [] None] \<and>
       cancelListeners (tasks w' ! 1) = [])"
proof -
  define w where "w = after [Submit ''A'', CallOncancel 0 (UserFn 9 [] None), BodySettles 0 (Returns Undefined),
                   PlayThen 0, Submit ''B'', CallOncancel 1 (UserFn 1 [0] None),
                   CallOncancel 1 (UserFn 2 [] None)]"
  have len: "1 < length (tasks w)" unfolding w_def by code_simp
  have nc: "\<not> cancelled (tasks w ! 1)" unfolding w_def by code_simp
  have ls: "cancelListeners (tasks w ! 1) = [UserFn 1 [0] None, UserFn 2 [] None]" unfolding w_def by code_simp
  have sp: "list_all (spares 1 w) (upto_throw (cancelListeners (tasks w ! 1)))" unfolding w_def by code_simp
  have f: "fired w = []" unfolding w_def by code_simp
  have c: "TaskImpl_cancel 1 w = (fst (TaskImpl_cancel 1 w), snd (TaskImpl_cancel 1 w))" by simp
  have nt: "\<not> list_ex throws (cancelListeners (tasks w ! 1))" unfolding ls by simp
  note T = cancel_idempotent_stops_at_throw [OF len c refl]
  have idem: "cancelled (tasks (snd (TaskImpl_cancel 1 w)) ! 1) \<and>
       TaskImpl_cancel 1 (snd (TaskImpl_cancel 1 w)) = (Ret (), snd (TaskImpl_cancel 1 w))"
    using T [THEN conjunct1] T [THEN conjunct2, THEN conjunct1] by (rule conjI)
  note E = T [THEN conjunct2, THEN conjunct2, unfolded if_not_P [OF nc]]
  note S = E [THEN conjunct2, THEN conjunct2, rule_format, OF sp, unfolded if_not_P [OF nt]]
  from S
  have "fired (snd (TaskImpl_cancel 1 w)) = fired w @ upto_throw (cancelListeners (tasks w ! 1)) \<and>
       fst (TaskImpl_cancel 1 w) = Ret () \<and>
       upto_throw (cancelListeners (tasks w ! 1)) = cancelListeners (tasks w ! 1) \<and>
       cancelListeners (tasks (snd (TaskImpl_cancel 1 w)) ! 1) = []" .
  then have "fst (TaskImpl_cancel 1 w) = Ret () \<and>
       fired (snd (TaskImpl_cancel 1 w)) = [UserFn 1 [0] None, UserFn 2 [] None] \<and>
       cancelListeners (tasks (snd (TaskImpl_cancel 1 w)) ! 1) = []"
    using ls f by simp
  with len nc ls sp idem show ?thesis unfolding Let_def w_def [symmetric] by simp
qed

text \<open>
  Against C7 as stated: the first of two listeners throws. \<^verbatim>\<open>Scheduler.cancel()\<close> then
  throws out of \<^verbatim>\<open>task.cancel()\<close>; the second listener has not been called and is still
  registered, and the scheduler still holds the task as current.
\<close>

theorem cancel_throwing_listener_counterexample:
  "(case run [Submit ''A'', CallOncancel 0 (UserFn 1 [] (Some (Error ''boom''))),
              CallOncancel 0 (UserFn 2 [] None)] (init ''ftp'') of
      None \<Rightarrow> False
    | Some w \<Rightarrow>
        (case TaskImpl_cancel 0 w of
           (r, w') \<Rightarrow>
             cancelListeners (tasks w ! 0) = [UserFn 1 [] (Some (Error ''boom'')), UserFn 2 [] None] \<and>
             r = Throw (Error ''boom'') \<and>
             fired w' = [UserFn 1 [] (Some (Error ''boom''))] \<and>
             UserFn 2 [] None \<notin> set (fired w') \<and>
             cancelListeners (tasks w' ! 0) = [UserFn 1 [] (Some (Error ''boom'')), UserFn 2 [] None] \<and>
             Scheduler_cancel w = Some (Throw (Error ''boom''), w') \<and>
             currentTask w' = Some 0))"
  by code_simp

text \<open>
  The loop reads the array at every turn. A listener that disposes its own handle while
  it runs takes its entry out of the array; the entry after it moves into the position
  the loop has just left, and the loop ends without calling it. The same happens to the
  \<^verbatim>\<open>reject\<close> of a wait: its promise then stays pending.
\<close>

lemma disposing_listener_shortens_array:
  "(case run [Submit ''A'', CallOncancel 0 (UserFn 1 [0] None), CallOncancel 0 (UserFn 2 [] None)]
       (init ''ftp'') of
      None \<Rightarrow> False
    | Some w \<Rightarrow>
        (case TaskImpl_cancel 0 w of
           (r, w') \<Rightarrow>
             cancelListeners (tasks w ! 0) = [UserFn 1 [0] None, UserFn 2 [] None] \<and>
             r = Ret () \<and> fired w' = [UserFn 1 [0] None] \<and>
             cancelListeners (tasks w' ! 0) = [])) \<and>
   (case run [Submit ''A'', CallOncancel 0 (UserFn 1 [0] None), CallWith 0] (init ''ftp'') of
      None \<Rightarrow> False
    | Some w \<Rightarrow>
        (case TaskImpl_cancel 0 w of
           (r, w') \<Rightarrow>
             cancelListeners (tasks w ! 0) = [UserFn 1 [0] None, RejectOf 0] \<and>
             r = Ret () \<and> fired w' = [UserFn 1 [0] None] \<and>
             wrapped w' = [\<lparr>st = Pending, owner = 0, waiting = True\<rparr>]))"
  by code_simp

subsection \<open>Registering and disposing\<close>

text \<open>
  Claim C9, as the code has it. On a task that is not cancelled, every \<^verbatim>\<open>oncancel(cb)\<close>
  appends an entry of its own, whether or not \<open>cb\<close> is registered already; a cancellation
  in which no listener throws or disposes a handle of the task calls every entry, so a
  function registered twice is called twice; \<^verbatim>\<open>removeCancelListener(cb)\<close> and the
  disposal of a handle for \<open>cb\<close> remove the last entry that is \<open>cb\<close> and no other, and
  \<^verbatim>\<open>removeCancelListener\<close> returns whether an entry was removed.
\<close>

theorem duplicate_registrations:
  "a < length (tasks w) \<Longrightarrow> \<not> cancelled (tasks w ! a) \<Longrightarrow> ls = cancelListeners (tasks w ! a) \<Longrightarrow>
     cancelListeners (tasks (snd (TaskImpl_oncancel a cb w)) ! a) = ls @ [cb] \<and>
     (\<not> list_ex throws ls \<and> list_all (spares a w) ls \<longrightarrow>
        fired (snd (TaskImpl_cancel a w)) = fired w @ ls) \<and>
     (\<forall>xs ys. ls = xs @ cb # ys \<and> cb \<notin> set ys \<longrightarrow>
        TaskImpl_removeCancelListener a cb w =
          (Ret True, upd_task a (\<lambda>t. t\<lparr>cancelListeners := xs @ ys\<rparr>) w)) \<and>
     (\<forall>h xs ys. h < length (handles w) \<and> handles w ! h = \<lparr>task = a, target = Some cb\<rparr> \<and>
         ls = xs @ cb # ys \<and> cb \<notin> set ys \<longrightarrow>
        cancelListeners (tasks (snd (OnCancel_dispose h w)) ! a) = xs @ ys) \<and>
     (cb \<notin> set ls \<longrightarrow> TaskImpl_removeCancelListener a cb w = (Ret False, w))"
proof -
  assume a: "a < length (tasks w)" and nc: "\<not> cancelled (tasks w ! a)"
    and ls: "ls = cancelListeners (tasks w ! a)"
  have reg: "cancelListeners (tasks (snd (TaskImpl_oncancel a cb w)) ! a) = ls @ [cb]"
    using a nc ls by (simp add: oncancel_pending upd_task_def)
  have fire: "\<not> list_ex throws ls \<and> list_all (spares a w) ls \<longrightarrow>
        fired (snd (TaskImpl_cancel a w)) = fired w @ ls"
  proof
    assume h: "\<not> list_ex throws ls \<and> list_all (spares a w) ls"
    then have u: "upto_throw ls = ls" by (simp add: upto_throw_all)
    with h have "list_all (spares a w) (upto_throw (cancelListeners (tasks w ! a)))" by (simp add: ls)
    from cancel_spared(1) [OF a nc this] u show "fired (snd (TaskImpl_cancel a w)) = fired w @ ls"
      by (simp add: ls)
  qed
  have rem: "\<forall>xs ys. ls = xs @ cb # ys \<and> cb \<notin> set ys \<longrightarrow>
        TaskImpl_removeCancelListener a cb w =
          (Ret True, upd_task a (\<lambda>t. t\<lparr>cancelListeners := xs @ ys\<rparr>) w)"
    using ls remove_last [of w a _ cb] by auto
  have disp: "\<forall>h xs ys. h < length (handles w) \<and> handles w ! h = \<lparr>task = a, target = Some cb\<rparr> \<and>
         ls = xs @ cb # ys \<and> cb \<notin> set ys \<longrightarrow>
        cancelListeners (tasks (snd (OnCancel_dispose h w)) ! a) = xs @ ys"
  proof (intro allI impI)
    fix h xs ys
    assume h: "h < length (handles w) \<and> handles w ! h = \<lparr>task = a, target = Some cb\<rparr> \<and>
         ls = xs @ cb # ys \<and> cb \<notin> set ys"
    then have "OnCancel_dispose h w =
     (Ret (), (upd_task a (\<lambda>t. t\<lparr>cancelListeners := xs @ ys\<rparr>) w)
        \<lparr>handles := (handles w)[h := \<lparr>task = a, target = None\<rparr>]\<rparr>)"
      using ls dispose_last [of h w a cb xs ys] by simp
    then show "cancelListeners (tasks (snd (OnCancel_dispose h w)) ! a) = xs @ ys"
      using a by (simp add: upd_task_def)
  qed
  have absent: "cb \<notin> set ls \<longrightarrow> TaskImpl_removeCancelListener a cb w = (Ret False, w)"
    using ls by (simp add: remove_absent)
  from reg fire rem disp absent show ?thesis by (intro conjI)
qed

theorem duplicate_registrations_witness:
  "(let cb = UserFn 1 [] None;
        w = after [Submit ''A'', CallOncancel 0 cb, CallOncancel 0 (UserFn 2 [] None), CallOncancel 0 cb]
    in 0 < length (tasks w) \<and> \<not> cancelled (tasks w ! 0) \<and>
       cancelListeners (tasks w ! 0) = [cb, UserFn 2 [] None, cb] \<and>
       \<not> list_ex throws (cancelListeners (tasks w ! 0)) \<and>
       list_all (spares 0 w) (cancelListeners (tasks w ! 0)) \<and>
       cancelListeners (tasks (snd (TaskImpl_oncancel 0 cb w)) ! 0) = [cb, UserFn 2 [] None, cb, cb] \<and>
       fired (snd (TaskImpl_cancel 0 w)) = [cb, UserFn 2 [] None, cb] \<and>
       TaskImpl_removeCancelListener 0 cb w =
         (Ret True, upd_task 0 (\<lambda>t. t\<lparr>cancelListeners := [cb, UserFn 2 [] None]\<rparr>) w) \<and>
       cancelListeners (tasks (snd (OnCancel_dispose 0 w)) ! 0) = [cb, UserFn 2 [] None] \<and>
       TaskImpl_removeCancelListener 0 (UserFn 3 [] None) w = (Ret False, w))"
proof -
  define cb where "cb = UserFn 1 [] None"
  define w where "w = after [Submit ''A'', CallOncancel 0 cb, CallOncancel 0 (UserFn 2 [] None), CallOncancel 0 cb]"
  have len: "0 < length (tasks w)" unfolding w_def cb_def by code_simp
  have nc: "\<not> cancelled (tasks w ! 0)" unfolding w_def cb_def by code_simp
  have ls: "cancelListeners (tasks w ! 0) = [cb, UserFn 2 [] None] @ cb # []" unfolding w_def cb_def by code_simp
  have f: "fired w = []" unfolding w_def cb_def by code_simp
  have h: "0 < length (handles w)" "handles w ! 0 = \<lparr>task = 0, target = Some cb\<rparr>"
    unfolding w_def cb_def by code_simp+
  have nt: "\<not> list_ex throws ([cb, UserFn 2 [] None] @ cb # [])" by (simp add: cb_def)
  have sp: "list_all (spares 0 w) ([cb, UserFn 2 [] None] @ cb # [])" by (simp add: cb_def spares_def)
  have ab: "UserFn 3 [] None \<notin> set ([cb, UserFn 2 [] None] @ cb # [])" by (simp add: cb_def)
  have r: "TaskImpl_removeCancelListener 0 (UserFn 3 [] None) w = (Ret False, w)"
    using duplicate_registrations [OF len nc ls [symmetric], of "UserFn 3 [] None",
        THEN conjunct2, THEN conjunct2, THEN conjunct2, THEN conjunct2, rule_format] ab .
  note T = duplicate_registrations [OF len nc ls [symmetric], of cb]
  have reg: "cancelListeners (tasks (snd (TaskImpl_oncancel 0 cb w)) ! 0) = [cb, UserFn 2 [] None, cb, cb]"
    using T [THEN conjunct1] by simp
  have fire: "fired (snd (TaskImpl_cancel 0 w)) = [cb, UserFn 2 [] None, cb]"
    using T [THEN conjunct2, THEN conjunct1, rule_format, OF conjI [OF nt sp]] f by simp
  have rem: "TaskImpl_removeCancelListener 0 cb w =
         (Ret True, upd_task 0 (\<lambda>t. t\<lparr>cancelListeners := [cb, UserFn 2 [] None] @ []\<rparr>) w)"
    using T [THEN conjunct2, THEN conjunct2, THEN conjunct1, rule_format, of "[cb, UserFn 2 [] None]" "[]"]
    by (simp add: cb_def)
  have disp: "cancelListeners (tasks (snd (OnCancel_dispose 0 w)) ! 0) = [cb, UserFn 2 [] None] @ []"
    using T [THEN conjunct2, THEN conjunct2, THEN conjunct2, THEN conjunct1, rule_format,
        of 0 "[cb, UserFn 2 [] None]" "[]"] h
    by (simp add: cb_def)
  from reg fire rem disp
  have "cancelListeners (tasks (snd (TaskImpl_oncancel 0 cb w)) ! 0) = [cb, UserFn 2 [] None, cb, cb] \<and>
       fired (snd (TaskImpl_cancel 0 w)) = [cb, UserFn 2 [] None, cb] \<and>
       TaskImpl_removeCancelListener 0 cb w =
         (Ret True, upd_task 0 (\<lambda>t. t\<lparr>cancelListeners := [cb, UserFn 2 [] None]\<rparr>) w) \<and>
       cancelListeners (tasks (snd (OnCancel_dispose 0 w)) ! 0) = [cb, UserFn 2 [] None]"
    by simp
  with len nc ls nt sp r show ?thesis unfolding Let_def cb_def [symmetric] w_def [symmetric] by simp
qed

text \<open>
  Against C9 as stated: a function that throws is registered twice. The first call of it
  ends the loop of \<^verbatim>\<open>fireCancel\<close>, so the cancellation calls it once and not twice.
\<close>

theorem duplicate_throwing_counterexample:
  "(case run [Submit ''A'', CallOncancel 0 (UserFn 1 [] (Some (Error ''boom''))),
              CallOncancel 0 (UserFn 1 [] (Some (Error ''boom'')))] (init ''ftp'') of
      None \<Rightarrow> False
    | Some w \<Rightarrow>
        \<not> cancelled (tasks w ! 0) \<and>
        cancelListeners (tasks w ! 0) =
          [UserFn 1 [] (Some (Error ''boom'')), UserFn 1 [] (Some (Error ''boom''))] \<and>
        fired w = [] \<and>
        (case TaskImpl_cancel 0 w of
           (r, w') \<Rightarrow> r = Throw (Error ''boom'') \<and> cancelled (tasks w' ! 0) \<and>
                       fired w' = [UserFn 1 [] (Some (Error ''boom''))]))"
  by code_simp




section \<open>What every run keeps\<close>

subsection \<open>Runs and invariants\<close>

lemma run_append:
  "run (xs @ ys) w = (case run xs w of None \<Rightarrow> None | Some w' \<Rightarrow> run ys w')"
  by (induction xs arbitrary: w) (auto split: option.splits)

lemma run_snoc:
  "run (xs @ [e]) w = Some w'' \<longleftrightarrow>
     (\<exists>w'. run xs w = Some w' \<and> enabled e w' \<and> step e w' = Some w'')"
  by (auto simp: run_append split: option.splits if_splits)

lemma run_invariant:
  assumes "run evs w0 = Some w" and "P w0"
    and "\<And>e u u'. P u \<Longrightarrow> enabled e u \<Longrightarrow> step e u = Some u' \<Longrightarrow> P u'"
  shows "P w"
  using assms(1,2)
proof (induction evs arbitrary: w0)
  case Nil
  then show ?case by simp
next
  case (Cons e es)
  from Cons.prems(1) obtain u where en: "enabled e w0" and st: "step e w0 = Some u"
    and rest: "run es u = Some w"
    by (auto split: if_splits option.splits)
  from assms(3) [OF Cons.prems(2) en st] have "P u" .
  with Cons.IH rest show ?case by blast
qed

subsection \<open>The core\<close>

lemma core_upd_listeners [simp]:
  "core (upd_task a (\<lambda>t. t\<lparr>cancelListeners := f t\<rparr>) w) = core w"
proof (cases "a < length (tasks w)")
  case True
  then show ?thesis by (simp add: core_def upd_task_def map_update list_update_same_conv)
next
  case False
  then show ?thesis by (simp add: core_def upd_task_def list_update_beyond)
qed

lemma core_settle [simp]: "core (settle p s w) = core w"
  by (simp add: settle_def core_def)

lemma core_remove [simp]: "core (snd (TaskImpl_removeCancelListener a cb w)) = core w"
  by (simp add: TaskImpl_removeCancelListener_def Let_def)

lemma core_handles_update [simp]: "core (w\<lparr>handles := h\<rparr>) = core w"
  by (simp add: core_def)

lemma core_wrapped_update [simp]: "core (w\<lparr>wrapped := h\<rparr>) = core w"
  by (simp add: core_def)

lemma core_fired_update [simp]: "core (w\<lparr>fired := h\<rparr>) = core w"
  by (simp add: core_def)

lemma core_unhandled_update [simp]: "core (w\<lparr>unhandled := h\<rparr>) = core w"
  by (simp add: core_def)

lemma core_dispose [simp]: "core (snd (OnCancel_dispose h w)) = core w"
  by (simp add: OnCancel_dispose_def Let_def split: option.splits)

lemma core_disposals [simp]: "core (disposals hs w) = core w"
  by (induction hs arbitrary: w) simp_all

lemma core_invoke [simp]: "core (snd (invoke cb w)) = core w"
  by (cases "(cb, w)" rule: invoke.cases) simp_all

lemma core_new_OnCancel [simp]: "core (snd (new_OnCancel a tg w)) = core w"
  by (simp add: new_OnCancel_def core_def)

lemma core_oncancel [simp]: "core (snd (TaskImpl_oncancel a cb w)) = core w"
proof (cases "cancelled (tasks w ! a)")
  case True
  have "core (snd (invoke cb w)) = core w" by simp
  then show ?thesis
    using True by (cases "invoke cb w") (auto simp: TaskImpl_oncancel_def split: res.splits)
next
  case False
  then show ?thesis by (simp add: TaskImpl_oncancel_def)
qed

lemma core_new_wrapper [simp]: "core (new_wrapper s a wt w) = core w"
  by (simp add: new_wrapper_def)

lemma core_with [simp]: "core (snd (TaskImpl_with a w)) = core w"
proof -
  have "core (snd (TaskImpl_oncancel a (RejectOf (length (wrapped w))) (new_wrapper Pending a True w))) = core w"
    by simp
  then show ?thesis
    by (cases "TaskImpl_oncancel a (RejectOf (length (wrapped w))) (new_wrapper Pending a True w)")
       (auto simp: TaskImpl_with_def Let_def split: res.splits)
qed

lemma core_with_then [simp]: "core (with_then p v w) = core w"
  by (simp add: with_then_def Let_def)

lemma core_with_catch [simp]: "core (with_catch p v w) = core w"
  by (simp add: with_catch_def Let_def)

lemma core_checkCanceled [simp]: "core (snd (TaskImpl_checkCanceled a w)) = core w"
  by (simp add: TaskImpl_checkCanceled_def)

lemma core_quiet: "quiet e \<Longrightarrow> step e w = Some w' \<Longrightarrow> core w' = core w"
  by (cases e) (auto simp: Let_def split: outcome.splits)

lemma core_fields:
  assumes "core w' = core w"
  shows "length (tasks w') = length (tasks w)" and "currentTask w' = currentTask w"
    and "nextTask w' = nextTask w" and "lastTask w' = lastTask w" and "calls w' = calls w"
    and "sname w' = sname w" and "qstart w' = qstart w"
    and "a < length (tasks w) \<Longrightarrow> strip (tasks w' ! a) = strip (tasks w ! a)"
proof -
  from assms have m: "map strip (tasks w') = map strip (tasks w)" by (simp add: core_def)
  then show l: "length (tasks w') = length (tasks w)" by (rule map_eq_imp_length_eq)
  from assms show "currentTask w' = currentTask w" "nextTask w' = nextTask w"
    "lastTask w' = lastTask w" "calls w' = calls w" "sname w' = sname w"
    by (simp_all add: core_def)
  then show "qstart w' = qstart w" using l by (simp add: qstart_def split: option.splits)
  show "a < length (tasks w) \<Longrightarrow> strip (tasks w' ! a) = strip (tasks w ! a)"
    using m l by (metis nth_map)
qed

lemma wf_core:
  assumes c: "core w' = core w" and wf: "wellformed w"
  shows "wellformed w'"
proof -
  note f = core_fields [OF c]
  have s: "\<And>a. a < length (tasks w) \<Longrightarrow>
      state (tasks w' ! a) = state (tasks w ! a) \<and> act (tasks w' ! a) = act (tasks w ! a) \<and>
      promise (tasks w' ! a) = promise (tasks w ! a) \<and> nxt (tasks w' ! a) = nxt (tasks w ! a) \<and>
      cancelled (tasks w' ! a) = cancelled (tasks w ! a)"
    using f(8) strip_fields by blast
  have 1: "\<forall>a b. a < length (tasks w') \<and> nxt (tasks w' ! a) = Some b \<longrightarrow> a < b \<and> b < length (tasks w')"
    using wf s unfolding wellformed_def f(1-7) by metis
  have 2: "(nextTask w' = None \<longrightarrow> lastTask w' = None) \<and>
     (\<forall>k. nextTask w' = Some k \<longrightarrow> k < length (tasks w') \<and> lastTask w' = Some (length (tasks w') - 1))"
    using wf unfolding wellformed_def f(1-7) by blast
  have 3: "\<forall>a. qstart w' \<le> a \<and> a < length (tasks w') \<longrightarrow>
        state (tasks w' ! a) = WAIT \<and>
        nxt (tasks w' ! a) = (if Suc a < length (tasks w') then Some (Suc a) else None)"
    using wf s unfolding wellformed_def f(1-7) by metis
  have 4: "\<forall>a. a < length (tasks w') \<and> state (tasks w' ! a) = WAIT \<longrightarrow>
        act (tasks w' ! a) = NotCalled \<and> \<not> cancelled (tasks w' ! a) \<and>
        promise (tasks w' ! a) = Pending \<and> a \<notin> set (calls w')"
    using wf s unfolding wellformed_def f(1-7) by metis
  have 5: "\<forall>a. a < length (tasks w') \<longrightarrow>
        state (tasks w' ! a) \<noteq> DONE \<and> act (tasks w' ! a) \<noteq> Failed \<and>
        (promise (tasks w' ! a) = Pending \<or> promise (tasks w' ! a) = Fulfilled Undefined)"
    using wf s unfolding wellformed_def f(1-7) by metis
  have 6: "\<forall>c. currentTask w' = Some c \<longrightarrow> c < qstart w' \<and> state (tasks w' ! c) = STARTED"
    using wf s unfolding wellformed_def f(1-7) by (metis less_le_trans)
  have 7: "\<forall>a. a \<in> set (calls w') \<longrightarrow> a < qstart w'"
    using wf unfolding wellformed_def f(1-7) by blast
  have 8: "qstart w' \<le> length (tasks w')"
    using wf unfolding wellformed_def f(1-7) by blast
  from 1 2 3 4 5 6 7 8 show ?thesis unfolding wellformed_def by blast
qed

lemma core_logs [simp]:
  "core (verbose s w) = core w" "core (message s w) = core w" "core (error e w) = core w"
  by (simp_all add: verbose_def message_def error_def core_def)

lemma wf_logs [simp]:
  "wellformed (verbose s w) = wellformed w" "wellformed (message s w) = wellformed w" "wellformed (error e w) = wellformed w"
  by (metis core_logs wf_core)+

lemma wfD_links: "wellformed w \<Longrightarrow> a < length (tasks w) \<Longrightarrow> nxt (tasks w ! a) = Some b \<Longrightarrow> a < b \<and> b < length (tasks w)"
  unfolding wellformed_def by blast

lemma wfD_none: "wellformed w \<Longrightarrow> nextTask w = None \<Longrightarrow> lastTask w = None"
  unfolding wellformed_def by blast

lemma wfD_some:
  "wellformed w \<Longrightarrow> nextTask w = Some k \<Longrightarrow> k < length (tasks w) \<and> lastTask w = Some (length (tasks w) - 1)"
  unfolding wellformed_def by blast

lemma qstart_None [simp]: "nextTask w = None \<Longrightarrow> qstart w = length (tasks w)"
  by (simp add: qstart_def)

lemma qstart_Some [simp]: "nextTask w = Some k \<Longrightarrow> qstart w = k"
  by (simp add: qstart_def)

lemma wfD_queue:
  "wellformed w \<Longrightarrow> qstart w \<le> a \<Longrightarrow> a < length (tasks w) \<Longrightarrow>
     state (tasks w ! a) = WAIT \<and>
     nxt (tasks w ! a) = (if Suc a < length (tasks w) then Some (Suc a) else None)"
  unfolding wellformed_def by blast

lemma wfD_wait:
  "wellformed w \<Longrightarrow> a < length (tasks w) \<Longrightarrow> state (tasks w ! a) = WAIT \<Longrightarrow>
     act (tasks w ! a) = NotCalled \<and> \<not> cancelled (tasks w ! a) \<and>
     promise (tasks w ! a) = Pending \<and> a \<notin> set (calls w)"
  unfolding wellformed_def by blast

lemma wfD_all:
  "wellformed w \<Longrightarrow> a < length (tasks w) \<Longrightarrow>
     state (tasks w ! a) \<noteq> DONE \<and> act (tasks w ! a) \<noteq> Failed \<and>
     (promise (tasks w ! a) = Pending \<or> promise (tasks w ! a) = Fulfilled Undefined)"
  unfolding wellformed_def by blast

lemma wfD_cur: "wellformed w \<Longrightarrow> currentTask w = Some c \<Longrightarrow> c < qstart w \<and> state (tasks w ! c) = STARTED"
  unfolding wellformed_def by blast

lemma wfD_calls: "wellformed w \<Longrightarrow> a \<in> set (calls w) \<Longrightarrow> a < qstart w"
  unfolding wellformed_def by blast

lemma wfD_q: "wellformed w \<Longrightarrow> qstart w \<le> length (tasks w)"
  unfolding wellformed_def by blast

lemma wfI:
  assumes "\<And>a b. a < length (tasks w) \<Longrightarrow> nxt (tasks w ! a) = Some b \<Longrightarrow> a < b \<and> b < length (tasks w)"
    and "nextTask w = None \<Longrightarrow> lastTask w = None"
    and "\<And>k. nextTask w = Some k \<Longrightarrow> k < length (tasks w) \<and> lastTask w = Some (length (tasks w) - 1)"
    and "\<And>a. qstart w \<le> a \<Longrightarrow> a < length (tasks w) \<Longrightarrow>
     state (tasks w ! a) = WAIT \<and>
     nxt (tasks w ! a) = (if Suc a < length (tasks w) then Some (Suc a) else None)"
    and "\<And>a. a < length (tasks w) \<Longrightarrow> state (tasks w ! a) = WAIT \<Longrightarrow>
     act (tasks w ! a) = NotCalled \<and> \<not> cancelled (tasks w ! a) \<and>
     promise (tasks w ! a) = Pending \<and> a \<notin> set (calls w)"
    and "\<And>a. a < length (tasks w) \<Longrightarrow>
     state (tasks w ! a) \<noteq> DONE \<and> act (tasks w ! a) \<noteq> Failed \<and>
     (promise (tasks w ! a) = Pending \<or> promise (tasks w ! a) = Fulfilled Undefined)"
    and "\<And>c. currentTask w = Some c \<Longrightarrow> c < qstart w \<and> state (tasks w ! c) = STARTED"
    and "\<And>a. a \<in> set (calls w) \<Longrightarrow> a < qstart w"
    and "qstart w \<le> length (tasks w)"
  shows "wellformed w"
  unfolding wellformed_def using assms by blast

lemma wf_tasks_update:
  assumes wf: "wellformed w" and a: "a < length (tasks w)" and st: "state (tasks w ! a) \<noteq> WAIT"
    and s': "state t' = state (tasks w ! a)" and n': "nxt t' = nxt (tasks w ! a)"
    and a': "act t' \<noteq> Failed" and p': "promise t' = Pending \<or> promise t' = Fulfilled Undefined"
  shows "wellformed (w\<lparr>tasks := (tasks w)[a := t']\<rparr>)"
proof (rule wfI)
  let ?w = "w\<lparr>tasks := (tasks w)[a := t']\<rparr>"
  have q: "qstart ?w = qstart w" by (simp add: qstart_def split: option.splits)
  show "qstart ?w \<le> length (tasks ?w)" using wfD_q [OF wf] q by simp
  show "nextTask ?w = None \<Longrightarrow> lastTask ?w = None"
    using wfD_none [OF wf] by simp
  show "\<And>k. nextTask ?w = Some k \<Longrightarrow> k < length (tasks ?w) \<and> lastTask ?w = Some (length (tasks ?w) - 1)"
    using wfD_some [OF wf] by simp
  show "\<And>b. b \<in> set (calls ?w) \<Longrightarrow> b < qstart ?w"
    using wfD_calls [OF wf] q by simp
  show "\<And>c. currentTask ?w = Some c \<Longrightarrow> c < qstart ?w \<and> state (tasks ?w ! c) = STARTED"
  proof -
    fix c assume "currentTask ?w = Some c"
    then have c: "currentTask w = Some c" by simp
    from wfD_cur [OF wf c] wfD_q [OF wf] have "c < length (tasks w)" by simp
    with wfD_cur [OF wf c] s' show "c < qstart ?w \<and> state (tasks ?w ! c) = STARTED"
      unfolding q by (simp add: nth_list_update a)
  qed
  show "\<And>b c. b < length (tasks ?w) \<Longrightarrow> nxt (tasks ?w ! b) = Some c \<Longrightarrow> b < c \<and> c < length (tasks ?w)"
  proof -
    fix b c assume b: "b < length (tasks ?w)" and n: "nxt (tasks ?w ! b) = Some c"
    from b have b': "b < length (tasks w)" by simp
    from n b' n' have "nxt (tasks w ! b) = Some c" by (simp add: nth_list_update a split: if_splits)
    from wfD_links [OF wf b' this] show "b < c \<and> c < length (tasks ?w)" by simp
  qed
  show "\<And>b. qstart ?w \<le> b \<Longrightarrow> b < length (tasks ?w) \<Longrightarrow>
     state (tasks ?w ! b) = WAIT \<and>
     nxt (tasks ?w ! b) = (if Suc b < length (tasks ?w) then Some (Suc b) else None)"
  proof -
    fix b assume "qstart ?w \<le> b" and "b < length (tasks ?w)"
    then have qb: "qstart w \<le> b" and b': "b < length (tasks w)" using q by simp_all
    from wfD_queue [OF wf qb b'] st have "b \<noteq> a" by auto
    with wfD_queue [OF wf qb b'] b' show "state (tasks ?w ! b) = WAIT \<and>
     nxt (tasks ?w ! b) = (if Suc b < length (tasks ?w) then Some (Suc b) else None)"
      by (simp add: nth_list_update a)
  qed
  show "\<And>b. b < length (tasks ?w) \<Longrightarrow> state (tasks ?w ! b) = WAIT \<Longrightarrow>
     act (tasks ?w ! b) = NotCalled \<and> \<not> cancelled (tasks ?w ! b) \<and>
     promise (tasks ?w ! b) = Pending \<and> b \<notin> set (calls ?w)"
  proof -
    fix b assume "b < length (tasks ?w)" and s: "state (tasks ?w ! b) = WAIT"
    then have b': "b < length (tasks w)" by simp
    from s b' s' st have ba: "b \<noteq> a" by (auto simp: nth_list_update a)
    with s b' have "state (tasks w ! b) = WAIT" by (simp add: nth_list_update a)
    from wfD_wait [OF wf b' this] ba b' show "act (tasks ?w ! b) = NotCalled \<and> \<not> cancelled (tasks ?w ! b) \<and>
     promise (tasks ?w ! b) = Pending \<and> b \<notin> set (calls ?w)"
      by (simp add: nth_list_update a)
  qed
  show "\<And>b. b < length (tasks ?w) \<Longrightarrow>
     state (tasks ?w ! b) \<noteq> DONE \<and> act (tasks ?w ! b) \<noteq> Failed \<and>
     (promise (tasks ?w ! b) = Pending \<or> promise (tasks ?w ! b) = Fulfilled Undefined)"
  proof -
    fix b assume "b < length (tasks ?w)"
    then have b': "b < length (tasks w)" by simp
    from wfD_all [OF wf b'] wfD_all [OF wf a] s' a' p' b'
    show "state (tasks ?w ! b) \<noteq> DONE \<and> act (tasks ?w ! b) \<noteq> Failed \<and>
     (promise (tasks ?w ! b) = Pending \<or> promise (tasks ?w ! b) = Fulfilled Undefined)"
      by (cases "b = a") (simp_all add: nth_list_update a)
  qed
qed

lemma upd_task_fields [simp]:
  "tasks (upd_task a f w) = (tasks w)[a := f (tasks w ! a)]"
  "currentTask (upd_task a f w) = currentTask w"
  "nextTask (upd_task a f w) = nextTask w"
  "lastTask (upd_task a f w) = lastTask w"
  "calls (upd_task a f w) = calls w"
  "sname (upd_task a f w) = sname w"
  "fired (upd_task a f w) = fired w"
  "handles (upd_task a f w) = handles w"
  "wrapped (upd_task a f w) = wrapped w"
  "messageLog (upd_task a f w) = messageLog w"
  "verboseLog (upd_task a f w) = verboseLog w"
  "errorLog (upd_task a f w) = errorLog w"
  by (simp_all add: upd_task_def)

lemma verbose_fields [simp]:
  "tasks (verbose s w) = tasks w"
  "currentTask (verbose s w) = currentTask w"
  "nextTask (verbose s w) = nextTask w"
  "lastTask (verbose s w) = lastTask w"
  "calls (verbose s w) = calls w"
  "sname (verbose s w) = sname w"
  "fired (verbose s w) = fired w"
  "handles (verbose s w) = handles w"
  "wrapped (verbose s w) = wrapped w"
  "messageLog (verbose s w) = messageLog w"
  "errorLog (verbose s w) = errorLog w"
  by (simp_all add: verbose_def)

lemma message_fields [simp]:
  "tasks (message s w) = tasks w"
  "currentTask (message s w) = currentTask w"
  "nextTask (message s w) = nextTask w"
  "lastTask (message s w) = lastTask w"
  "calls (message s w) = calls w"
  "sname (message s w) = sname w"
  "fired (message s w) = fired w"
  "handles (message s w) = handles w"
  "wrapped (message s w) = wrapped w"
  "messageLog (message s w) = messageLog w @ [s]"
  "verboseLog (message s w) = verboseLog w"
  "errorLog (message s w) = errorLog w"
  by (simp_all add: message_def)

lemma error_fields [simp]:
  "tasks (error e w) = tasks w"
  "currentTask (error e w) = currentTask w"
  "nextTask (error e w) = nextTask w"
  "lastTask (error e w) = lastTask w"
  "calls (error e w) = calls w"
  "sname (error e w) = sname w"
  "fired (error e w) = fired w"
  "handles (error e w) = handles w"
  "wrapped (error e w) = wrapped w"
  "messageLog (error e w) = messageLog w"
  "verboseLog (error e w) = verboseLog w"
  by (simp_all add: error_def)

lemma wf_upd_task:
  assumes wf: "wellformed w" and a: "a < length (tasks w)" and st: "state (tasks w ! a) \<noteq> WAIT"
    and s': "state (f (tasks w ! a)) = state (tasks w ! a)"
    and n': "nxt (f (tasks w ! a)) = nxt (tasks w ! a)"
    and a': "act (f (tasks w ! a)) \<noteq> Failed"
    and p': "promise (f (tasks w ! a)) = Pending \<or> promise (f (tasks w ! a)) = Fulfilled Undefined"
  shows "wellformed (upd_task a f w)"
  unfolding upd_task_def using assms by (rule wf_tasks_update)

lemma play_resume_tasks:
  "a < length (tasks w) \<Longrightarrow>
   tasks (TaskImpl_play_resume a oc w) = (tasks w)[a := resumed oc (tasks w ! a)]"
  by (cases oc) (auto simp: TaskImpl_play_resume_def play_done_def resolve_def resumed_def Let_def)

lemma play_resume_fields [simp]:
  "length (tasks (TaskImpl_play_resume a oc w)) = length (tasks w)"
  "currentTask (TaskImpl_play_resume a oc w) = currentTask w"
  "nextTask (TaskImpl_play_resume a oc w) = nextTask w"
  "lastTask (TaskImpl_play_resume a oc w) = lastTask w"
  "calls (TaskImpl_play_resume a oc w) = calls w"
  "sname (TaskImpl_play_resume a oc w) = sname w"
  "fired (TaskImpl_play_resume a oc w) = fired w"
  "messageLog (TaskImpl_play_resume a oc w) = messageLog w"
  by (cases oc; simp add: TaskImpl_play_resume_def play_done_def resolve_def Let_def)+

lemma core_play_resume:
  "a < length (tasks w) \<Longrightarrow>
   core (TaskImpl_play_resume a oc w) = core (w\<lparr>tasks := (tasks w)[a := resumed oc (tasks w ! a)]\<rparr>)"
  by (simp add: core_def play_resume_tasks)

lemma wf_play_resume:
  assumes wf: "wellformed w" and a: "a < length (tasks w)" and s: "act (tasks w ! a) = Suspended"
  shows "wellformed (TaskImpl_play_resume a oc w)"
proof -
  have st: "state (tasks w ! a) \<noteq> WAIT" using wfD_wait [OF wf a] s by auto
  have p: "promise (tasks w ! a) = Pending \<or> promise (tasks w ! a) = Fulfilled Undefined"
    using wfD_all [OF wf a] by simp
  have "wellformed (w\<lparr>tasks := (tasks w)[a := resumed oc (tasks w ! a)]\<rparr>)"
    using wf a st
  proof (rule wf_tasks_update)
    show "state (resumed oc (tasks w ! a)) = state (tasks w ! a)" by (simp add: resumed_def)
    show "nxt (resumed oc (tasks w ! a)) = nxt (tasks w ! a)" by (simp add: resumed_def)
    show "act (resumed oc (tasks w ! a)) \<noteq> Failed" using p by (auto simp: resumed_def)
    show "promise (resumed oc (tasks w ! a)) = Pending \<or> promise (resumed oc (tasks w ! a)) = Fulfilled Undefined"
      using p by (auto simp: resumed_def)
  qed
  with core_play_resume [OF a] show ?thesis by (rule wf_core)
qed

text \<open>play of a task that waits and is not cancelled\<close>

lemma play_waiting:
  assumes "state (tasks w ! a) = WAIT" and "\<not> cancelled (tasks w ! a)" and "a < length (tasks w)"
  shows "TaskImpl_play a w =
     (Pending,
      (verbose (''[TASK:'' @ name (tasks w ! a) @ ''] started'') w)
        \<lparr>tasks := (tasks w)[a := (tasks w ! a)\<lparr>state := STARTED, act := Suspended\<rparr>],
         calls := calls w @ [a]\<rparr>)"
  using assms by (simp add: TaskImpl_play_def Let_def upd_task_def verbose_def)

lemma progress_idle:
  "nextTask w = None \<Longrightarrow>
   Scheduler_progress w = (verbose (''[SCHEDULAR:'' @ sname w @ ''] idle'') w)\<lparr>currentTask := None\<rparr>"
  by (simp add: Scheduler_progress_def)

lemma qstart_currentTask [simp]: "qstart (w\<lparr>currentTask := c\<rparr>) = qstart w"
  by (simp add: qstart_def split: option.splits)

lemma wf_currentTask_None:
  assumes wf: "wellformed w"
  shows "wellformed (w\<lparr>currentTask := None\<rparr>)"
proof (rule wfI)
  let ?w = "w\<lparr>currentTask := None\<rparr>"
  show "\<And>a b. a < length (tasks ?w) \<Longrightarrow> nxt (tasks ?w ! a) = Some b \<Longrightarrow> a < b \<and> b < length (tasks ?w)"
  proof -
    fix a b assume "a < length (tasks ?w)" and "nxt (tasks ?w ! a) = Some b"
    then have "a < length (tasks w)" and "nxt (tasks w ! a) = Some b" by simp_all
    from wfD_links [OF wf this] show "a < b \<and> b < length (tasks ?w)" by simp
  qed
  show "nextTask ?w = None \<Longrightarrow> lastTask ?w = None"
    using wfD_none [OF wf] by simp
  show "\<And>k. nextTask ?w = Some k \<Longrightarrow> k < length (tasks ?w) \<and> lastTask ?w = Some (length (tasks ?w) - 1)"
    using wfD_some [OF wf] by simp
  show "\<And>a. qstart ?w \<le> a \<Longrightarrow> a < length (tasks ?w) \<Longrightarrow>
     state (tasks ?w ! a) = WAIT \<and>
     nxt (tasks ?w ! a) = (if Suc a < length (tasks ?w) then Some (Suc a) else None)"
  proof -
    fix a assume "qstart ?w \<le> a" and "a < length (tasks ?w)"
    then have "qstart w \<le> a" and "a < length (tasks w)" by simp_all
    from wfD_queue [OF wf this] show "state (tasks ?w ! a) = WAIT \<and>
     nxt (tasks ?w ! a) = (if Suc a < length (tasks ?w) then Some (Suc a) else None)" by simp
  qed
  show "\<And>a. a < length (tasks ?w) \<Longrightarrow> state (tasks ?w ! a) = WAIT \<Longrightarrow>
     act (tasks ?w ! a) = NotCalled \<and> \<not> cancelled (tasks ?w ! a) \<and>
     promise (tasks ?w ! a) = Pending \<and> a \<notin> set (calls ?w)"
  proof -
    fix a assume "a < length (tasks ?w)" and "state (tasks ?w ! a) = WAIT"
    then have "a < length (tasks w)" and "state (tasks w ! a) = WAIT" by simp_all
    from wfD_wait [OF wf this] show "act (tasks ?w ! a) = NotCalled \<and> \<not> cancelled (tasks ?w ! a) \<and>
     promise (tasks ?w ! a) = Pending \<and> a \<notin> set (calls ?w)" by simp
  qed
  show "\<And>a. a < length (tasks ?w) \<Longrightarrow>
     state (tasks ?w ! a) \<noteq> DONE \<and> act (tasks ?w ! a) \<noteq> Failed \<and>
     (promise (tasks ?w ! a) = Pending \<or> promise (tasks ?w ! a) = Fulfilled Undefined)"
  proof -
    fix a assume "a < length (tasks ?w)"
    then have "a < length (tasks w)" by simp
    from wfD_all [OF wf this] show "state (tasks ?w ! a) \<noteq> DONE \<and> act (tasks ?w ! a) \<noteq> Failed \<and>
     (promise (tasks ?w ! a) = Pending \<or> promise (tasks ?w ! a) = Fulfilled Undefined)" by simp
  qed
  show "\<And>c. currentTask ?w = Some c \<Longrightarrow> c < qstart ?w \<and> state (tasks ?w ! c) = STARTED"
    by simp
  show "\<And>a. a \<in> set (calls ?w) \<Longrightarrow> a < qstart ?w"
  proof -
    fix a assume "a \<in> set (calls ?w)"
    then have "a \<in> set (calls w)" by simp
    from wfD_calls [OF wf this] show "a < qstart ?w" by simp
  qed
  show "qstart ?w \<le> length (tasks ?w)"
    using wfD_q [OF wf] by simp
qed

lemma wf_verboseLog [simp]: "wellformed (w\<lparr>verboseLog := x\<rparr>) = wellformed w"
proof -
  have "core (w\<lparr>verboseLog := x\<rparr>) = core w" by (simp add: core_def)
  then show ?thesis by (metis wf_core)
qed

lemma progress_dequeue:
  assumes wf: "wellformed w" and k: "nextTask w = Some k"
  shows "Scheduler_progress w =
     (dequeued k w)\<lparr>verboseLog := verboseLog w @ [''[TASK:'' @ name (tasks w ! k) @ ''] started'']\<rparr>"
proof -
  have kl: "k < length (tasks w)" using wfD_some [OF wf k] by simp
  have q: "state (tasks w ! k) = WAIT \<and> nxt (tasks w ! k) = (if Suc k < length (tasks w) then Some (Suc k) else None)"
    using wfD_queue [OF wf _ kl] k by simp
  then have nc: "\<not> cancelled (tasks w ! k)" using wfD_wait [OF wf kl] by simp
  show ?thesis
    using k kl q nc
    by (simp add: Scheduler_progress_def Let_def play_waiting dequeued_def verbose_def)
qed

lemma wf_dequeued:
  assumes wf: "wellformed w" and k: "nextTask w = Some k"
  shows "wellformed (dequeued k w)"
proof (rule wfI)
  let ?w = "dequeued k w"
  let ?n = "length (tasks w)"
  have kl: "k < ?n" and last: "lastTask w = Some (?n - 1)" using wfD_some [OF wf k] by simp_all
  have qk: "qstart w = k" using k by simp
  have len: "length (tasks ?w) = ?n" by (simp add: dequeued_def)
  have q': "qstart ?w = Suc k" using kl by (simp add: dequeued_def qstart_def)
  have nth: "\<And>b. b < ?n \<Longrightarrow> tasks ?w ! b = (if b = k then (tasks w ! k)\<lparr>state := STARTED, act := Suspended\<rparr> else tasks w ! b)"
    using kl by (simp add: dequeued_def nth_list_update)
  have wk: "state (tasks w ! k) = WAIT" using wfD_queue [OF wf _ kl] qk by simp
  show "qstart ?w \<le> length (tasks ?w)" using q' len kl by simp
  show "nextTask ?w = None \<Longrightarrow> lastTask ?w = None"
    by (simp add: dequeued_def split: if_splits)
  show "\<And>j. nextTask ?w = Some j \<Longrightarrow> j < length (tasks ?w) \<and> lastTask ?w = Some (length (tasks ?w) - 1)"
    using last by (simp add: dequeued_def split: if_splits)
  show "\<And>b. b \<in> set (calls ?w) \<Longrightarrow> b < qstart ?w"
  proof -
    fix b assume "b \<in> set (calls ?w)"
    then have "b = k \<or> b \<in> set (calls w)" by (auto simp: dequeued_def)
    then show "b < qstart ?w" using wfD_calls [OF wf, of b] qk q' by auto
  qed
  show "\<And>c. currentTask ?w = Some c \<Longrightarrow> c < qstart ?w \<and> state (tasks ?w ! c) = STARTED"
  proof -
    fix c assume "currentTask ?w = Some c"
    then have "c = k" by (simp add: dequeued_def)
    then show "c < qstart ?w \<and> state (tasks ?w ! c) = STARTED" using q' kl nth by simp
  qed
  show "\<And>b c. b < length (tasks ?w) \<Longrightarrow> nxt (tasks ?w ! b) = Some c \<Longrightarrow> b < c \<and> c < length (tasks ?w)"
  proof -
    fix b c assume b: "b < length (tasks ?w)" and n: "nxt (tasks ?w ! b) = Some c"
    from b have b': "b < ?n" using len by simp
    from n nth [OF b'] have "nxt (tasks w ! b) = Some c" by (simp split: if_splits)
    from wfD_links [OF wf b' this] show "b < c \<and> c < length (tasks ?w)" using len by simp
  qed
  show "\<And>b. qstart ?w \<le> b \<Longrightarrow> b < length (tasks ?w) \<Longrightarrow>
     state (tasks ?w ! b) = WAIT \<and>
     nxt (tasks ?w ! b) = (if Suc b < length (tasks ?w) then Some (Suc b) else None)"
  proof -
    fix b assume "qstart ?w \<le> b" and "b < length (tasks ?w)"
    then have kb: "Suc k \<le> b" and b': "b < ?n" using q' len by simp_all
    then have "qstart w \<le> b" and "b \<noteq> k" using qk by simp_all
    with wfD_queue [OF wf _ b'] nth [OF b'] len
    show "state (tasks ?w ! b) = WAIT \<and>
     nxt (tasks ?w ! b) = (if Suc b < length (tasks ?w) then Some (Suc b) else None)"
      by simp
  qed
  show "\<And>b. b < length (tasks ?w) \<Longrightarrow> state (tasks ?w ! b) = WAIT \<Longrightarrow>
     act (tasks ?w ! b) = NotCalled \<and> \<not> cancelled (tasks ?w ! b) \<and>
     promise (tasks ?w ! b) = Pending \<and> b \<notin> set (calls ?w)"
  proof -
    fix b assume "b < length (tasks ?w)" and s: "state (tasks ?w ! b) = WAIT"
    then have b': "b < ?n" using len by simp
    from s nth [OF b'] have bk: "b \<noteq> k" by auto
    with s nth [OF b'] have "state (tasks w ! b) = WAIT" by simp
    from wfD_wait [OF wf b' this] bk nth [OF b']
    show "act (tasks ?w ! b) = NotCalled \<and> \<not> cancelled (tasks ?w ! b) \<and>
     promise (tasks ?w ! b) = Pending \<and> b \<notin> set (calls ?w)"
      by (simp add: dequeued_def)
  qed
  show "\<And>b. b < length (tasks ?w) \<Longrightarrow>
     state (tasks ?w ! b) \<noteq> DONE \<and> act (tasks ?w ! b) \<noteq> Failed \<and>
     (promise (tasks ?w ! b) = Pending \<or> promise (tasks ?w ! b) = Fulfilled Undefined)"
  proof -
    fix b assume "b < length (tasks ?w)"
    then have b': "b < ?n" using len by simp
    from wfD_all [OF wf b'] wfD_all [OF wf kl] nth [OF b']
    show "state (tasks ?w ! b) \<noteq> DONE \<and> act (tasks ?w ! b) \<noteq> Failed \<and>
     (promise (tasks ?w ! b) = Pending \<or> promise (tasks ?w ! b) = Fulfilled Undefined)"
      by (cases "b = k") simp_all
  qed
qed

lemma wf_progress: "wellformed w \<Longrightarrow> wellformed (Scheduler_progress w)"
proof (cases "nextTask w")
  case None
  assume "wellformed w"
  then show ?thesis using None by (simp add: progress_idle wf_currentTask_None)
next
  case (Some k)
  assume wf: "wellformed w"
  from wf_dequeued [OF wf Some] show ?thesis by (simp add: progress_dequeue [OF wf Some])
qed

lemma Scheduler_task_enqueued:
  "snd (Scheduler_task n w) =
     (if currentTask w = None
      then Scheduler_progress (verbose (''[SCHEDULAR:'' @ sname w @ ''] busy'') (enqueued n w))
      else enqueued n w)"
  by (cases "lastTask w") (simp_all add: Scheduler_task_def enqueued_def Let_def upd_task_def)

lemma enqueued_fields [simp]:
  "length (tasks (enqueued n w)) = Suc (length (tasks w))"
  "currentTask (enqueued n w) = currentTask w"
  "calls (enqueued n w) = calls w"
  "sname (enqueued n w) = sname w"
  "fired (enqueued n w) = fired w"
  "messageLog (enqueued n w) = messageLog w"
  by (cases "lastTask w"; simp add: enqueued_def)+

lemma wf_last_next: "wellformed w \<Longrightarrow> (lastTask w = None) = (nextTask w = None)"
  using wfD_none wfD_some by (cases "nextTask w") fastforce+

lemma wf_last_index:
  assumes wf: "wellformed w" and l: "lastTask w = Some l"
  shows "Suc l = length (tasks w) \<and> qstart w \<le> l"
proof -
  from l obtain k where k: "nextTask w = Some k" using wf_last_next [OF wf] by (cases "nextTask w") auto
  from wfD_some [OF wf k] l k show ?thesis by auto
qed

lemma enqueued_new:
  assumes wf: "wellformed w"
  shows "tasks (enqueued n w) ! length (tasks w) = new_TaskImpl n"
proof (cases "lastTask w")
  case None
  then show ?thesis by (simp add: enqueued_def)
next
  case (Some l)
  from wf_last_index [OF wf Some] have "l < length (tasks w)" by simp
  then show ?thesis using Some by (simp add: enqueued_def nth_list_update nth_append)
qed

lemma enqueued_old:
  assumes wf: "wellformed w" and b: "b < length (tasks w)"
  shows "tasks (enqueued n w) ! b =
     (if lastTask w = Some b then (tasks w ! b)\<lparr>nxt := Some (length (tasks w))\<rparr> else tasks w ! b)"
  using b by (cases "lastTask w") (auto simp: enqueued_def nth_list_update nth_append)

lemma enqueued_last: "lastTask (enqueued n w) = Some (length (tasks w))"
  by (cases "lastTask w") (simp_all add: enqueued_def)

lemma enqueued_next:
  "nextTask (enqueued n w) = (if lastTask w = None then Some (length (tasks w)) else nextTask w)"
  by (cases "lastTask w") (simp_all add: enqueued_def)

lemma enqueued_qstart:
  assumes wf: "wellformed w"
  shows "qstart (enqueued n w) = qstart w"
proof (cases "nextTask w")
  case None
  then have "lastTask w = None" using wfD_none [OF wf] by simp
  then have "nextTask (enqueued n w) = Some (length (tasks w))" by (simp add: enqueued_next)
  then show ?thesis using None by simp
next
  case (Some k)
  from wfD_some [OF wf Some] have "lastTask w = Some (length (tasks w) - 1)" by simp
  then have "nextTask (enqueued n w) = Some k" using Some by (simp add: enqueued_next)
  then show ?thesis using Some by simp
qed

lemma wf_enqueued:
  assumes wf: "wellformed w"
  shows "wellformed (enqueued n w)"
proof (rule wfI)
  let ?w = "enqueued n w"
  let ?n = "length (tasks w)"
  note q = enqueued_qstart [OF wf]
  note old = enqueued_old [OF wf]
  note lastn = wf_last_index [OF wf]
  note new = enqueued_new [OF wf, of n]
  show "qstart ?w \<le> length (tasks ?w)" using wfD_q [OF wf] q by simp
  show "nextTask ?w = None \<Longrightarrow> lastTask ?w = None"
    using wf_last_next [OF wf] by (simp add: enqueued_next split: if_splits)
  show "\<And>k. nextTask ?w = Some k \<Longrightarrow> k < length (tasks ?w) \<and> lastTask ?w = Some (length (tasks ?w) - 1)"
  proof -
    fix k assume k: "nextTask ?w = Some k"
    then have "k = qstart ?w" by simp
    then have "k \<le> ?n" using q wfD_q [OF wf] by simp
    then show "k < length (tasks ?w) \<and> lastTask ?w = Some (length (tasks ?w) - 1)"
      by (simp add: enqueued_last)
  qed
  show "\<And>b. b \<in> set (calls ?w) \<Longrightarrow> b < qstart ?w"
  proof -
    fix b assume "b \<in> set (calls ?w)"
    then have "b \<in> set (calls w)" by simp
    from wfD_calls [OF wf this] show "b < qstart ?w" using q by simp
  qed
  show "\<And>c. currentTask ?w = Some c \<Longrightarrow> c < qstart ?w \<and> state (tasks ?w ! c) = STARTED"
  proof -
    fix c assume "currentTask ?w = Some c"
    then have c: "currentTask w = Some c" by simp
    from wfD_cur [OF wf c] wfD_q [OF wf] have cl: "c < ?n" by simp
    from wfD_cur [OF wf c] old [OF cl] show "c < qstart ?w \<and> state (tasks ?w ! c) = STARTED"
      using q by simp
  qed
  show "\<And>b c. b < length (tasks ?w) \<Longrightarrow> nxt (tasks ?w ! b) = Some c \<Longrightarrow> b < c \<and> c < length (tasks ?w)"
  proof -
    fix b c assume b: "b < length (tasks ?w)" and n: "nxt (tasks ?w ! b) = Some c"
    show "b < c \<and> c < length (tasks ?w)"
    proof (cases "b < ?n")
      case True
      show ?thesis
      proof (cases "lastTask w = Some b")
        case l: True
        with n old [OF True] have "c = ?n" by simp
        then show ?thesis using True by simp
      next
        case False
        with n old [OF True] have "nxt (tasks w ! b) = Some c" by simp
        from wfD_links [OF wf True this] show ?thesis by simp
      qed
    next
      case False
      with b have "b = ?n" by simp
      with n new show ?thesis by (simp add: new_TaskImpl_def)
    qed
  qed
  show "\<And>b. qstart ?w \<le> b \<Longrightarrow> b < length (tasks ?w) \<Longrightarrow>
     state (tasks ?w ! b) = WAIT \<and>
     nxt (tasks ?w ! b) = (if Suc b < length (tasks ?w) then Some (Suc b) else None)"
  proof -
    fix b assume qb: "qstart ?w \<le> b" and b: "b < length (tasks ?w)"
    show "state (tasks ?w ! b) = WAIT \<and>
     nxt (tasks ?w ! b) = (if Suc b < length (tasks ?w) then Some (Suc b) else None)"
    proof (cases "b < ?n")
      case True
      from qb q have qb': "qstart w \<le> b" by simp
      note old_b = wfD_queue [OF wf qb' True]
      show ?thesis
      proof (cases "lastTask w = Some b")
        case l: True
        from lastn [OF l] old [OF True] l old_b show ?thesis by simp
      next
        case False
        have "Suc b < ?n"
        proof (rule ccontr)
          assume "\<not> Suc b < ?n"
          with True have sb: "Suc b = ?n" by simp
          from qb' True wfD_q [OF wf] have "nextTask w \<noteq> None" by (auto simp: qstart_def split: option.splits)
          then obtain k where k: "nextTask w = Some k" by auto
          from wfD_some [OF wf k] sb have "lastTask w = Some b" by auto
          with False show False by simp
        qed
        with old [OF True] False old_b show ?thesis by simp
      qed
    next
      case False
      with b have "b = ?n" by simp
      with new show ?thesis by (simp add: new_TaskImpl_def)
    qed
  qed
  show "\<And>b. b < length (tasks ?w) \<Longrightarrow> state (tasks ?w ! b) = WAIT \<Longrightarrow>
     act (tasks ?w ! b) = NotCalled \<and> \<not> cancelled (tasks ?w ! b) \<and>
     promise (tasks ?w ! b) = Pending \<and> b \<notin> set (calls ?w)"
  proof -
    fix b assume b: "b < length (tasks ?w)" and s: "state (tasks ?w ! b) = WAIT"
    show "act (tasks ?w ! b) = NotCalled \<and> \<not> cancelled (tasks ?w ! b) \<and>
     promise (tasks ?w ! b) = Pending \<and> b \<notin> set (calls ?w)"
    proof (cases "b < ?n")
      case True
      from s old [OF True] have "state (tasks w ! b) = WAIT" by (simp split: if_splits)
      from wfD_wait [OF wf True this] old [OF True] show ?thesis by simp
    next
      case False
      with b have bn: "b = ?n" by simp
      have "b \<notin> set (calls w)"
      proof
        assume "b \<in> set (calls w)"
        from wfD_calls [OF wf this] wfD_q [OF wf] bn show False by simp
      qed
      with bn new show ?thesis by (simp add: new_TaskImpl_def)
    qed
  qed
  show "\<And>b. b < length (tasks ?w) \<Longrightarrow>
     state (tasks ?w ! b) \<noteq> DONE \<and> act (tasks ?w ! b) \<noteq> Failed \<and>
     (promise (tasks ?w ! b) = Pending \<or> promise (tasks ?w ! b) = Fulfilled Undefined)"
  proof -
    fix b assume b: "b < length (tasks ?w)"
    show "state (tasks ?w ! b) \<noteq> DONE \<and> act (tasks ?w ! b) \<noteq> Failed \<and>
     (promise (tasks ?w ! b) = Pending \<or> promise (tasks ?w ! b) = Fulfilled Undefined)"
    proof (cases "b < ?n")
      case True
      from wfD_all [OF wf True] old [OF True] show ?thesis by simp
    next
      case False
      with b have "b = ?n" by simp
      with new show ?thesis by (simp add: new_TaskImpl_def)
    qed
  qed
qed

lemma wf_Scheduler_task: "wellformed w \<Longrightarrow> wellformed (snd (Scheduler_task n w))"
  by (simp add: Scheduler_task_enqueued wf_enqueued wf_progress)

lemma core_fireLoop [simp]: "core (snd (fireLoop a i w)) = core w"
  by (rule fireLoop_keeps [where f = core]) simp

lemma core_fireCancel [simp]: "core (snd (fireCancel a w)) = core w"
  by (simp add: fireCancel_snd)

lemma core_cancel:
  "core (snd (TaskImpl_cancel a w)) =
     core (if cancelled (tasks w ! a) then w else upd_task a (\<lambda>t. t\<lparr>cancelled := True\<rparr>) w)"
  by (simp add: TaskImpl_cancel_def)

lemma cancel_pointers [simp]:
  "currentTask (snd (TaskImpl_cancel a w)) = currentTask w"
  "nextTask (snd (TaskImpl_cancel a w)) = nextTask w"
  "lastTask (snd (TaskImpl_cancel a w)) = lastTask w"
  "calls (snd (TaskImpl_cancel a w)) = calls w"
  "sname (snd (TaskImpl_cancel a w)) = sname w"
  "qstart (snd (TaskImpl_cancel a w)) = qstart w"
proof -
  let ?u = "if cancelled (tasks w ! a) then w else upd_task a (\<lambda>t. t\<lparr>cancelled := True\<rparr>) w"
  note f = core_fields [OF core_cancel [of a w]]
  show "currentTask (snd (TaskImpl_cancel a w)) = currentTask w" using f(2) by simp
  show "nextTask (snd (TaskImpl_cancel a w)) = nextTask w" using f(3) by simp
  show "lastTask (snd (TaskImpl_cancel a w)) = lastTask w" using f(4) by simp
  show "calls (snd (TaskImpl_cancel a w)) = calls w" using f(5) by simp
  show "sname (snd (TaskImpl_cancel a w)) = sname w" using f(6) by simp
  have "qstart ?u = qstart w" by (simp add: qstart_def upd_task_def split: option.splits)
  then show "qstart (snd (TaskImpl_cancel a w)) = qstart w" using f(7) by simp
qed

lemma wf_cancel:
  assumes wf: "wellformed w" and a: "a < length (tasks w)" and st: "state (tasks w ! a) \<noteq> WAIT"
  shows "wellformed (snd (TaskImpl_cancel a w))"
proof -
  have "wellformed (upd_task a (\<lambda>t. t\<lparr>cancelled := True\<rparr>) w)"
    using wf a st by (rule wf_upd_task) (use wfD_all [OF wf a] in simp_all)
  with wf have "wellformed (if cancelled (tasks w ! a) then w else upd_task a (\<lambda>t. t\<lparr>cancelled := True\<rparr>) w)"
    by simp
  with core_cancel show ?thesis by (rule wf_core)
qed

text \<open>The loop of cancel ends, and only writes messages.\<close>

lemma cancel_loop_ends:
  assumes links: "\<And>a b. a < length ts \<Longrightarrow> nxt (ts ! a) = Some b \<Longrightarrow> a < b \<and> b < length ts"
  shows "tasks w = ts \<Longrightarrow> (\<And>b. nx = Some b \<Longrightarrow> b < length ts) \<Longrightarrow>
     \<exists>ms. cancel_loop nx w = Some (w\<lparr>messageLog := messageLog w @ ms\<rparr>)"
proof (induction "case nx of None \<Rightarrow> 0 | Some b \<Rightarrow> length ts - b" arbitrary: nx w rule: less_induct)
  case less
  show ?case
  proof (cases nx)
    case None
    have "cancel_loop None w = Some (w\<lparr>messageLog := messageLog w @ []\<rparr>)"
      by (subst cancel_loop.simps) simp
    then show ?thesis using None by blast
  next
    case (Some b)
    with less.prems have b: "b < length ts" by simp
    let ?w = "message (cancelled_message w b) w"
    let ?nx = "nxt (tasks w ! b)"
    have step: "cancel_loop nx w = cancel_loop ?nx ?w"
      using Some by (subst cancel_loop.simps) simp
    have t: "tasks ?w = ts" using less.prems(1) by simp
    have bound: "\<And>c. ?nx = Some c \<Longrightarrow> c < length ts"
      using links [OF b] less.prems(1) by simp
    have dec: "(case ?nx of None \<Rightarrow> 0 | Some c \<Rightarrow> length ts - c) < (case nx of None \<Rightarrow> 0 | Some b \<Rightarrow> length ts - b)"
    proof (cases ?nx)
      case None
      then show ?thesis using Some b by simp
    next
      case (Some c)
      with links [OF b, of c] less.prems(1) have "b < c \<and> c < length ts" by simp
      then have "length ts - c < length ts - b" by arith
      then show ?thesis using Some \<open>nx = Some b\<close> by simp
    qed
    from less.hyps [OF dec t bound] obtain ms where
      "cancel_loop ?nx ?w = Some (?w\<lparr>messageLog := messageLog ?w @ ms\<rparr>)" by blast
    then have "cancel_loop nx w = Some (w\<lparr>messageLog := messageLog w @ (cancelled_message w b # ms)\<rparr>)"
      using step by (simp add: message_def)
    then show ?thesis by blast
  qed
qed

lemma wf_messageLog [simp]: "wellformed (w\<lparr>messageLog := x\<rparr>) = wellformed w"
proof -
  have "core (w\<lparr>messageLog := x\<rparr>) = core w" by (simp add: core_def)
  then show ?thesis by (metis wf_core)
qed

lemma wf_reset:
  assumes wf: "wellformed w"
  shows "wellformed (w\<lparr>nextTask := None, lastTask := None\<rparr>)"
proof (rule wfI)
  let ?w = "w\<lparr>nextTask := None, lastTask := None\<rparr>"
  have q: "qstart ?w = length (tasks w)" by simp
  show "\<And>a b. a < length (tasks ?w) \<Longrightarrow> nxt (tasks ?w ! a) = Some b \<Longrightarrow> a < b \<and> b < length (tasks ?w)"
  proof -
    fix a b assume "a < length (tasks ?w)" and "nxt (tasks ?w ! a) = Some b"
    then have "a < length (tasks w)" and "nxt (tasks w ! a) = Some b" by simp_all
    from wfD_links [OF wf this] show "a < b \<and> b < length (tasks ?w)" by simp
  qed
  show "nextTask ?w = None \<Longrightarrow> lastTask ?w = None" by simp
  show "\<And>k. nextTask ?w = Some k \<Longrightarrow> k < length (tasks ?w) \<and> lastTask ?w = Some (length (tasks ?w) - 1)"
    by simp
  show "\<And>a. qstart ?w \<le> a \<Longrightarrow> a < length (tasks ?w) \<Longrightarrow>
     state (tasks ?w ! a) = WAIT \<and>
     nxt (tasks ?w ! a) = (if Suc a < length (tasks ?w) then Some (Suc a) else None)"
    unfolding q by simp
  show "\<And>a. a < length (tasks ?w) \<Longrightarrow> state (tasks ?w ! a) = WAIT \<Longrightarrow>
     act (tasks ?w ! a) = NotCalled \<and> \<not> cancelled (tasks ?w ! a) \<and>
     promise (tasks ?w ! a) = Pending \<and> a \<notin> set (calls ?w)"
  proof -
    fix a assume "a < length (tasks ?w)" and "state (tasks ?w ! a) = WAIT"
    then have "a < length (tasks w)" and "state (tasks w ! a) = WAIT" by simp_all
    from wfD_wait [OF wf this] show "act (tasks ?w ! a) = NotCalled \<and> \<not> cancelled (tasks ?w ! a) \<and>
     promise (tasks ?w ! a) = Pending \<and> a \<notin> set (calls ?w)" by simp
  qed
  show "\<And>a. a < length (tasks ?w) \<Longrightarrow>
     state (tasks ?w ! a) \<noteq> DONE \<and> act (tasks ?w ! a) \<noteq> Failed \<and>
     (promise (tasks ?w ! a) = Pending \<or> promise (tasks ?w ! a) = Fulfilled Undefined)"
  proof -
    fix a assume "a < length (tasks ?w)"
    then have "a < length (tasks w)" by simp
    from wfD_all [OF wf this] show "state (tasks ?w ! a) \<noteq> DONE \<and> act (tasks ?w ! a) \<noteq> Failed \<and>
     (promise (tasks ?w ! a) = Pending \<or> promise (tasks ?w ! a) = Fulfilled Undefined)" by simp
  qed
  show "\<And>c. currentTask ?w = Some c \<Longrightarrow> c < qstart ?w \<and> state (tasks ?w ! c) = STARTED"
  proof -
    fix c assume "currentTask ?w = Some c"
    then have c: "currentTask w = Some c" by simp
    from wfD_cur [OF wf c] wfD_q [OF wf] show "c < qstart ?w \<and> state (tasks ?w ! c) = STARTED"
      unfolding q by simp
  qed
  show "\<And>a. a \<in> set (calls ?w) \<Longrightarrow> a < qstart ?w"
  proof -
    fix a assume "a \<in> set (calls ?w)"
    then have "a \<in> set (calls w)" by simp
    from wfD_calls [OF wf this] wfD_q [OF wf] show "a < qstart ?w" unfolding q by simp
  qed
  show "qstart ?w \<le> length (tasks ?w)" unfolding q by simp
qed

lemma cancel_name [simp]: "name (tasks (snd (TaskImpl_cancel a w)) ! b) = name (tasks w ! b)"
  using cancel_frame [of a w b] by simp

lemma cancel_nxt [simp]: "nxt (tasks (snd (TaskImpl_cancel a w)) ! b) = nxt (tasks w ! b)"
  using cancel_frame [of a w b] by simp

lemma cancelled_message_cancel [simp]:
  "cancelled_message (snd (TaskImpl_cancel a w)) b = cancelled_message w b"
  by (simp add: cancelled_message_def)

lemma Scheduler_cancel_idle:
  "currentTask w = None \<Longrightarrow> Scheduler_cancel w = Some (Ret (), w)"
  by (simp add: Scheduler_cancel_def)

lemma Scheduler_cancel_throw:
  "currentTask w = Some c \<Longrightarrow> fst (TaskImpl_cancel c w) = Throw e \<Longrightarrow>
   Scheduler_cancel w = Some (Throw e, snd (TaskImpl_cancel c w))"
  by (cases "TaskImpl_cancel c w") (simp add: Scheduler_cancel_def)

lemma Scheduler_cancel_busy:
  assumes wf: "wellformed w" and c: "currentTask w = Some c" and tc: "TaskImpl_cancel c w = (Ret (), w1)"
  shows "\<exists>ms. Scheduler_cancel w =
     Some (Ret (), w1\<lparr>messageLog := messageLog w @ cancelled_message w c # ms,
        currentTask := None, nextTask := None, lastTask := None\<rparr>)"
proof -
  let ?w2 = "(message (cancelled_message w1 c) w1)\<lparr>currentTask := None\<rparr>"
  have w1: "w1 = snd (TaskImpl_cancel c w)" using tc by simp
  have cl: "c < length (tasks w)" using wfD_cur [OF wf c] wfD_q [OF wf] by simp
  have st: "state (tasks w ! c) \<noteq> WAIT" using wfD_cur [OF wf c] by simp
  have wf1: "wellformed w1" unfolding w1 using wf cl st by (rule wf_cancel)
  have len: "length (tasks w1) = length (tasks w)" unfolding w1 by (rule cancel_length)
  have nx: "nxt (tasks w1 ! c) = nxt (tasks w ! c)" unfolding w1 by simp
  have msg: "cancelled_message w1 c = cancelled_message w c" unfolding w1 by simp
  have ml: "messageLog w1 = messageLog w" unfolding w1 by simp
  have "\<exists>ms. cancel_loop (nxt (tasks ?w2 ! c)) ?w2 = Some (?w2\<lparr>messageLog := messageLog ?w2 @ ms\<rparr>)"
  proof (rule cancel_loop_ends [where ts = "tasks w1"])
    show "\<And>a b. a < length (tasks w1) \<Longrightarrow> nxt (tasks w1 ! a) = Some b \<Longrightarrow> a < b \<and> b < length (tasks w1)"
      using wfD_links [OF wf1] by blast
    show "tasks ?w2 = tasks w1" by simp
    show "\<And>b. nxt (tasks ?w2 ! c) = Some b \<Longrightarrow> b < length (tasks w1)"
    proof -
      fix b assume "nxt (tasks ?w2 ! c) = Some b"
      then have "nxt (tasks w ! c) = Some b" using nx by simp
      from wfD_links [OF wf cl this] len show "b < length (tasks w1)" by simp
    qed
  qed
  then obtain ms where
    loop: "cancel_loop (nxt (tasks ?w2 ! c)) ?w2 = Some (?w2\<lparr>messageLog := messageLog ?w2 @ ms\<rparr>)"
    by blast
  have "Scheduler_cancel w =
     Some (Ret (), w1\<lparr>messageLog := messageLog w @ cancelled_message w c # ms,
        currentTask := None, nextTask := None, lastTask := None\<rparr>)"
    using c tc loop msg ml by (simp add: Scheduler_cancel_def Let_def message_def)
  then show ?thesis by blast
qed

lemma wf_Scheduler_cancel:
  assumes wf: "wellformed w" and s: "Scheduler_cancel w = Some (r, w')"
  shows "wellformed w'"
proof (cases "currentTask w")
  case None
  with s wf show ?thesis by (simp add: Scheduler_cancel_idle)
next
  case (Some c)
  have cl: "c < length (tasks w)" using wfD_cur [OF wf Some] wfD_q [OF wf] by simp
  have st: "state (tasks w ! c) \<noteq> WAIT" using wfD_cur [OF wf Some] by simp
  have wf1: "wellformed (snd (TaskImpl_cancel c w))" using wf cl st by (rule wf_cancel)
  show ?thesis
  proof (cases "fst (TaskImpl_cancel c w)")
    case (Ret u)
    then have "TaskImpl_cancel c w = (Ret (), snd (TaskImpl_cancel c w))" by (metis prod.collapse old.unit.exhaust)
    from Scheduler_cancel_busy [OF wf Some this] s obtain ms where
      w': "w' = (snd (TaskImpl_cancel c w))
       \<lparr>messageLog := messageLog w @ cancelled_message w c # ms,
        currentTask := None, nextTask := None, lastTask := None\<rparr>"
      by auto
    have "wellformed ((snd (TaskImpl_cancel c w))\<lparr>currentTask := None\<rparr>)"
      using wf1 by (rule wf_currentTask_None)
    then have "wellformed ((snd (TaskImpl_cancel c w))\<lparr>currentTask := None, nextTask := None, lastTask := None\<rparr>)"
      using wf_reset by fastforce
    then have "wellformed (((snd (TaskImpl_cancel c w))\<lparr>currentTask := None, nextTask := None, lastTask := None\<rparr>)
       \<lparr>messageLog := messageLog w @ cancelled_message w c # ms\<rparr>)"
      by (simp only: wf_messageLog)
    moreover have "w' = ((snd (TaskImpl_cancel c w))\<lparr>currentTask := None, nextTask := None, lastTask := None\<rparr>)
       \<lparr>messageLog := messageLog w @ cancelled_message w c # ms\<rparr>"
      unfolding w' by simp
    ultimately show ?thesis by simp
  next
    case (Throw e)
    from Scheduler_cancel_throw [OF Some this] s wf1 show ?thesis by simp
  qed
qed

lemma wf_step:
  assumes wf: "wellformed w" and en: "enabled e w" and st: "step e w = Some w'"
  shows "wellformed w'"
proof (cases "quiet e")
  case True
  from core_quiet [OF True st] wf show ?thesis by (rule wf_core)
next
  case False
  then show ?thesis
  proof (cases e)
    case (Submit n)
    with st wf show ?thesis by (auto simp: wf_Scheduler_task)
  next
    case CancelAll
    with st obtain r where "Scheduler_cancel w = Some (r, w')" by auto
    with wf show ?thesis by (rule wf_Scheduler_cancel)
  next
    case (BodySettles a oc)
    with en st wf show ?thesis by (auto simp: wf_play_resume)
  next
    case (PlayThen a)
    with en have a: "a < length (tasks w)" and r: "act (tasks w ! a) = Returned" by simp_all
    have s: "state (tasks w ! a) \<noteq> WAIT" using wfD_wait [OF wf a] r by auto
    have "wellformed (upd_task a (\<lambda>t. t\<lparr>act := Continued\<rparr>) w)"
      using wf a s by (rule wf_upd_task) (use wfD_all [OF wf a] in simp_all)
    then have "wellformed (Scheduler_progress (upd_task a (\<lambda>t. t\<lparr>act := Continued\<rparr>) w))"
      by (rule wf_progress)
    with PlayThen st show ?thesis by simp
  qed (use False in simp_all)
qed

lemma wf_init: "wellformed (init n)"
  by (simp add: wellformed_def init_def qstart_def)

lemma wf_run: "run evs w0 = Some w \<Longrightarrow> wellformed w0 \<Longrightarrow> wellformed w"
  by (rule run_invariant [where P = wellformed]) (auto intro: wf_step)

lemma wf_reachable: "run evs (init n) = Some w \<Longrightarrow> wellformed w"
  by (erule wf_run) (rule wf_init)

lemma run_after: "run evs (init ''ftp'') \<noteq> None \<Longrightarrow> run evs (init ''ftp'') = Some (after evs)"
  by (auto simp: after_def)

subsection \<open>What the jobs of the scheduler change\<close>

lemma dequeued_fields [simp]:
  "length (tasks (dequeued k w)) = length (tasks w)"
  "currentTask (dequeued k w) = Some k"
  "calls (dequeued k w) = calls w @ [k]"
  "sname (dequeued k w) = sname w"
  "fired (dequeued k w) = fired w"
  "messageLog (dequeued k w) = messageLog w"
  "nextTask (dequeued k w) = (if Suc k < length (tasks w) then Some (Suc k) else None)"
  by (simp_all add: dequeued_def)

lemma dequeued_nth:
  "k < length (tasks w) \<Longrightarrow> b < length (tasks w) \<Longrightarrow>
   tasks (dequeued k w) ! b =
     (if b = k then (tasks w ! k)\<lparr>state := STARTED, act := Suspended\<rparr> else tasks w ! b)"
  by (simp add: dequeued_def nth_list_update)

lemma dequeued_qstart: "k < length (tasks w) \<Longrightarrow> qstart (dequeued k w) = Suc k"
  by (simp add: dequeued_def qstart_def)

lemma verboseLog_fields [simp]:
  "tasks (w\<lparr>verboseLog := x\<rparr>) = tasks w"
  "qstart (w\<lparr>verboseLog := x\<rparr>) = qstart w"
  by (simp_all add: qstart_def split: option.splits)

lemma qstart_verbose [simp]: "qstart (verbose s w) = qstart w"
  by (simp add: qstart_def split: option.splits)

lemma qstart_upd_task [simp]: "qstart (upd_task a f w) = qstart w"
  by (simp add: qstart_def split: option.splits)

lemma qstart_play_resume [simp]: "qstart (TaskImpl_play_resume a oc w) = qstart w"
  by (simp add: qstart_def split: option.splits)

lemma qstart_core: "core w' = core w \<Longrightarrow> qstart w' = qstart w"
  by (rule core_fields(7))

text \<open>A job that is not quiet, and what it does to a task b that exists before it.\<close>

lemma core_task:
  assumes "core w' = core w" and "b < length (tasks w)"
  shows "state (tasks w' ! b) = state (tasks w ! b)" and "act (tasks w' ! b) = act (tasks w ! b)"
    and "promise (tasks w' ! b) = promise (tasks w ! b)" and "cancelled (tasks w' ! b) = cancelled (tasks w ! b)"
    and "nxt (tasks w' ! b) = nxt (tasks w ! b)" and "name (tasks w' ! b) = name (tasks w ! b)"
  using core_fields(8) [OF assms] strip_fields by blast+

subsection \<open>A discarded task stays discarded\<close>

lemma discarded_core: "core w' = core w \<Longrightarrow> discarded b w \<Longrightarrow> discarded b w'"
  using core_fields(1,7) [of w' w] core_task(1) [of w' w b] by (simp add: discarded_def)

lemma discarded_verbose [simp]: "discarded b (verbose s w) = discarded b w"
  by (simp add: discarded_def)

lemma discarded_enqueued:
  assumes wf: "wellformed w" and d: "discarded b w"
  shows "discarded b (enqueued n w)"
proof -
  from d have b: "b < length (tasks w)" and q: "b < qstart w" and s: "state (tasks w ! b) = WAIT"
    by (simp_all add: discarded_def)
  from enqueued_old [OF wf b] s have "state (tasks (enqueued n w) ! b) = WAIT" by simp
  with b q show ?thesis by (simp add: discarded_def enqueued_qstart [OF wf])
qed

lemma discarded_progress:
  assumes wf: "wellformed w" and d: "discarded b w"
  shows "discarded b (Scheduler_progress w)"
proof (cases "nextTask w")
  case None
  with d show ?thesis by (simp add: progress_idle discarded_def)
next
  case (Some k)
  from d have b: "b < length (tasks w)" and q: "b < qstart w" and s: "state (tasks w ! b) = WAIT"
    by (simp_all add: discarded_def)
  have kl: "k < length (tasks w)" using wfD_some [OF wf Some] by simp
  have bk: "b < k" using q Some by simp
  then have "state (tasks (dequeued k w) ! b) = WAIT" using dequeued_nth [OF kl b] s by simp
  with b bk kl show ?thesis
    by (simp add: progress_dequeue [OF wf Some] discarded_def dequeued_qstart)
qed

lemma discarded_cancel:
  assumes d: "discarded b w"
  shows "discarded b (snd (TaskImpl_cancel c w))"
  using d cancel_frame [of c w b] by (simp add: discarded_def cancel_length)

lemma discarded_Scheduler_cancel:
  assumes wf: "wellformed w" and s: "Scheduler_cancel w = Some (r, w')" and d: "discarded b w"
  shows "discarded b w'"
proof (cases "currentTask w")
  case None
  with s d show ?thesis by (simp add: Scheduler_cancel_idle)
next
  case (Some c)
  note d1 = discarded_cancel [OF d, of c]
  show ?thesis
  proof (cases "fst (TaskImpl_cancel c w)")
    case (Ret u)
    then have "TaskImpl_cancel c w = (Ret (), snd (TaskImpl_cancel c w))"
      by (metis prod.collapse old.unit.exhaust)
    from Scheduler_cancel_busy [OF wf Some this] s obtain ms where
      w': "w' = (snd (TaskImpl_cancel c w))
       \<lparr>messageLog := messageLog w @ cancelled_message w c # ms,
        currentTask := None, nextTask := None, lastTask := None\<rparr>"
      by auto
    from d1 show ?thesis unfolding w' by (simp add: discarded_def)
  next
    case (Throw e)
    from Scheduler_cancel_throw [OF Some this] s d1 show ?thesis by simp
  qed
qed

lemma discarded_step:
  assumes wf: "wellformed w" and en: "enabled e w" and st: "step e w = Some w'" and d: "discarded b w"
  shows "discarded b w'"
proof (cases "quiet e")
  case True
  from core_quiet [OF True st] d show ?thesis by (rule discarded_core)
next
  case False
  then show ?thesis
  proof (cases e)
    case (Submit n)
    have "discarded b (enqueued n w)" using wf d by (rule discarded_enqueued)
    moreover have "wellformed (verbose (''[SCHEDULAR:'' @ sname w @ ''] busy'') (enqueued n w))"
      using wf_enqueued [OF wf] by simp
    ultimately show ?thesis
      using Submit st discarded_progress [of "verbose (''[SCHEDULAR:'' @ sname w @ ''] busy'') (enqueued n w)" b]
      by (auto simp: Scheduler_task_enqueued)
  next
    case CancelAll
    with st obtain r where "Scheduler_cancel w = Some (r, w')" by auto
    with wf show ?thesis using d by (rule discarded_Scheduler_cancel)
  next
    case (BodySettles a oc)
    with en have a: "a < length (tasks w)" by simp
    from d have b: "b < length (tasks w)" and q: "b < qstart w" and s: "state (tasks w ! b) = WAIT"
      by (simp_all add: discarded_def)
    have "state (tasks (TaskImpl_play_resume a oc w) ! b) = WAIT"
      using s a b by (simp add: play_resume_tasks nth_list_update resumed_def)
    with b q BodySettles st show ?thesis by (auto simp: discarded_def)
  next
    case (PlayThen a)
    with en have a: "a < length (tasks w)" and r: "act (tasks w ! a) = Returned" by simp_all
    have s: "state (tasks w ! a) \<noteq> WAIT" using wfD_wait [OF wf a] r by auto
    have wf': "wellformed (upd_task a (\<lambda>t. t\<lparr>act := Continued\<rparr>) w)"
      using wf a s by (rule wf_upd_task) (use wfD_all [OF wf a] in simp_all)
    have "discarded b (upd_task a (\<lambda>t. t\<lparr>act := Continued\<rparr>) w)"
      using d a by (auto simp: discarded_def nth_list_update)
    with wf' have "discarded b (Scheduler_progress (upd_task a (\<lambda>t. t\<lparr>act := Continued\<rparr>) w))"
      by (rule discarded_progress)
    with PlayThen st show ?thesis by simp
  qed (use False in simp_all)
qed

lemma discarded_run:
  "run evs w = Some w' \<Longrightarrow> wellformed w \<Longrightarrow> discarded b w \<Longrightarrow> discarded b w' \<and> wellformed w'"
proof (induction evs arbitrary: w)
  case Nil
  then show ?case by simp
next
  case (Cons e es)
  from Cons.prems(1) obtain u where en: "enabled e w" and st: "step e w = Some u"
    and rest: "run es u = Some w'"
    by (auto split: if_splits option.splits)
  from wf_step [OF Cons.prems(2) en st] discarded_step [OF Cons.prems(2) en st Cons.prems(3)]
  show ?case using Cons.IH [OF rest] by blast
qed

lemma discarded_never_runs:
  assumes "wellformed w" and "discarded b w"
  shows "act (tasks w ! b) = NotCalled \<and> \<not> cancelled (tasks w ! b) \<and>
     promise (tasks w ! b) = Pending \<and> b \<notin> set (calls w)"
  using assms wfD_wait [of w b] by (simp add: discarded_def)

section \<open>The scheduler\<close>

subsection \<open>cancel()\<close>

text \<open>
  Claim C4, as the code has it. In every store a run reaches: \<^verbatim>\<open>cancel()\<close> on a lane
  without a current task changes nothing. On a lane with a current task \<open>c\<close> none of
  whose listeners throws, \<^verbatim>\<open>cancel()\<close> returns; it has cancelled \<open>c\<close>, written the message
  for \<open>c\<close> first, and cancelled no other task: of another task nothing has changed but
  the listeners that a listener of \<open>c\<close> disposed, and nothing at all if the listeners
  of \<open>c\<close> dispose no handle; the pending chain is empty and \<^verbatim>\<open>currentTask\<close> is \<^verbatim>\<open>null\<close>
  when it returns, while \<^verbatim>\<open>play\<close> of \<open>c\<close> is where it was; and in every run that goes
  on from there, a task that was pending is never played, called or cancelled. The claim's last part (the lane
  becomes idle only after \<^verbatim>\<open>play()\<close> of the running task settles) is what the code does
  not do: \<^verbatim>\<open>cancel()\<close> sets \<^verbatim>\<open>currentTask = null\<close> itself. Which pending tasks get a
  message is left out of the statement: the loop follows \<^verbatim>\<open>task.next\<close> of the current
  task, which is not always the head of the chain.
\<close>

theorem cancelAll_clears_lane_at_once:
  assumes r: "run evs (init n) = Some w"
  shows "(currentTask w = None \<longrightarrow> Scheduler_cancel w = Some (Ret (), w)) \<and>
     (\<forall>c. currentTask w = Some c \<and> \<not> list_ex throws (cancelListeners (tasks w ! c)) \<longrightarrow>
        (\<exists>w'. Scheduler_cancel w = Some (Ret (), w') \<and>
           cancelled (tasks w' ! c) \<and>
           (\<exists>ms. messageLog w' = messageLog w @ cancelled_message w c # ms) \<and>
           currentTask w' = None \<and> nextTask w' = None \<and> lastTask w' = None \<and>
           act (tasks w' ! c) = act (tasks w ! c) \<and>
           length (tasks w') = length (tasks w) \<and>
           (\<forall>b. b \<noteq> c \<longrightarrow> strip (tasks w' ! b) = strip (tasks w ! b)) \<and>
           (list_all (\<lambda>l. disposes l = []) (cancelListeners (tasks w ! c)) \<longrightarrow>
              (\<forall>b. b \<noteq> c \<longrightarrow> tasks w' ! b = tasks w ! b)) \<and>
           (\<forall>b evs' w''. qstart w \<le> b \<and> b < length (tasks w) \<and> run evs' w' = Some w'' \<longrightarrow>
              state (tasks w'' ! b) = WAIT \<and> act (tasks w'' ! b) = NotCalled \<and>
              b \<notin> set (calls w'') \<and> \<not> cancelled (tasks w'' ! b))))"
proof (intro conjI allI impI)
  assume "currentTask w = None"
  then show "Scheduler_cancel w = Some (Ret (), w)" by (rule Scheduler_cancel_idle)
next
  fix c
  assume h: "currentTask w = Some c \<and> \<not> list_ex throws (cancelListeners (tasks w ! c))"
  from r have wf: "wellformed w" by (rule wf_reachable)
  from h have c: "currentTask w = Some c" by simp
  have cl: "c < length (tasks w)" using wfD_cur [OF wf c] wfD_q [OF wf] by simp
  have cq: "c < qstart w" using wfD_cur [OF wf c] by simp
  define w1 where "w1 = snd (TaskImpl_cancel c w)"
  have "fst (TaskImpl_cancel c w) = Ret ()" using h by (simp add: cancel_no_throw)
  then have tc: "TaskImpl_cancel c w = (Ret (), w1)" unfolding w1_def by (metis prod.collapse)
  from Scheduler_cancel_busy [OF wf c tc] obtain ms where
    sc: "Scheduler_cancel w = Some (Ret (), w1\<lparr>messageLog := messageLog w @ cancelled_message w c # ms,
        currentTask := None, nextTask := None, lastTask := None\<rparr>)"
    by blast
  let ?w' = "w1\<lparr>messageLog := messageLog w @ cancelled_message w c # ms,
        currentTask := None, nextTask := None, lastTask := None\<rparr>"
  have wf': "wellformed ?w'" using wf sc by (rule wf_Scheduler_cancel)
  have flag: "cancelled (tasks ?w' ! c)" using cancel_flag [OF cl] by (simp add: w1_def)
  have acts: "act (tasks ?w' ! c) = act (tasks w ! c)" using cancel_frame [of c w c] by (simp add: w1_def)
  have len: "length (tasks ?w') = length (tasks w)" by (simp add: w1_def)
  have others: "\<forall>b. b \<noteq> c \<longrightarrow> strip (tasks ?w' ! b) = strip (tasks w ! b)"
    using cancel_strip [of c w] by (simp add: w1_def upd_task_other)
  have plain: "list_all (\<lambda>l. disposes l = []) (cancelListeners (tasks w ! c)) \<longrightarrow>
              (\<forall>b. b \<noteq> c \<longrightarrow> tasks ?w' ! b = tasks w ! b)"
    using cancel_plain [of w c] by (simp add: w1_def)
  have never: "\<forall>b evs' w''. qstart w \<le> b \<and> b < length (tasks w) \<and> run evs' ?w' = Some w'' \<longrightarrow>
              state (tasks w'' ! b) = WAIT \<and> act (tasks w'' ! b) = NotCalled \<and>
              b \<notin> set (calls w'') \<and> \<not> cancelled (tasks w'' ! b)"
  proof (intro allI impI)
    fix b evs' w''
    assume p: "qstart w \<le> b \<and> b < length (tasks w) \<and> run evs' ?w' = Some w''"
    then have bc: "b \<noteq> c" using cq by auto
    from p wfD_queue [OF wf, of b] have "state (tasks w ! b) = WAIT" by simp
    with cancel_frame [of c w b] have "state (tasks ?w' ! b) = WAIT" by (simp add: w1_def)
    with p len have "discarded b ?w'" by (simp add: discarded_def)
    with p wf' have d: "discarded b w'' \<and> wellformed w''" using discarded_run by blast
    with discarded_never_runs [of w'' b]
    show "state (tasks w'' ! b) = WAIT \<and> act (tasks w'' ! b) = NotCalled \<and>
              b \<notin> set (calls w'') \<and> \<not> cancelled (tasks w'' ! b)"
      by (simp add: discarded_def)
  qed
  have msg: "\<exists>ms'. messageLog ?w' = messageLog w @ cancelled_message w c # ms'" by simp
  have ptr: "currentTask ?w' = None" "nextTask ?w' = None" "lastTask ?w' = None" by simp_all
  from sc flag msg ptr acts len others plain never
  show "\<exists>w'. Scheduler_cancel w = Some (Ret (), w') \<and>
           cancelled (tasks w' ! c) \<and>
           (\<exists>ms. messageLog w' = messageLog w @ cancelled_message w c # ms) \<and>
           currentTask w' = None \<and> nextTask w' = None \<and> lastTask w' = None \<and>
           act (tasks w' ! c) = act (tasks w ! c) \<and>
           length (tasks w') = length (tasks w) \<and>
           (\<forall>b. b \<noteq> c \<longrightarrow> strip (tasks w' ! b) = strip (tasks w ! b)) \<and>
           (list_all (\<lambda>l. disposes l = []) (cancelListeners (tasks w ! c)) \<longrightarrow>
              (\<forall>b. b \<noteq> c \<longrightarrow> tasks w' ! b = tasks w ! b)) \<and>
           (\<forall>b evs' w''. qstart w \<le> b \<and> b < length (tasks w) \<and> run evs' w' = Some w'' \<longrightarrow>
              state (tasks w'' ! b) = WAIT \<and> act (tasks w'' ! b) = NotCalled \<and>
              b \<notin> set (calls w'') \<and> \<not> cancelled (tasks w'' ! b))"
    by (intro exI [of _ ?w'] conjI) assumption+
qed

theorem cancelAll_clears_lane_at_once_witness:
  "(let evs = [Submit ''A'', Submit ''B'', Submit ''C'', BodySettles 0 (Returns Undefined), PlayThen 0];
        w = after evs;
        w' = snd (the (Scheduler_cancel w));
        later = [Submit ''D'', BodySettles 3 (Returns Undefined), PlayThen 3];
        w'' = the (run later w')
    in run evs (init ''ftp'') = Some w \<and> currentTask w = Some 1 \<and>
       \<not> list_ex throws (cancelListeners (tasks w ! 1)) \<and>
       list_all (\<lambda>l. disposes l = []) (cancelListeners (tasks w ! 1)) \<and>
       qstart w = 2 \<and> length (tasks w) = 3 \<and>
       act (tasks w ! 1) = Suspended \<and>
       Scheduler_cancel w = Some (Ret (), w') \<and> cancelled (tasks w' ! 1) \<and>
       currentTask w' = None \<and> nextTask w' = None \<and> lastTask w' = None \<and>
       act (tasks w' ! 1) = Suspended \<and> tasks w' ! 2 = tasks w ! 2 \<and>
       run later w' = Some w'' \<and> calls w'' = [0, 1, 3] \<and>
       state (tasks w'' ! 2) = WAIT \<and> act (tasks w'' ! 2) = NotCalled \<and>
       2 \<notin> set (calls w'') \<and> \<not> cancelled (tasks w'' ! 2) \<and>
       run [] (init ''ftp'') = Some (init ''ftp'') \<and> currentTask (init ''ftp'') = None \<and>
       Scheduler_cancel (init ''ftp'') = Some (Ret (), init ''ftp''))"
proof -
  define evs where "evs = [Submit ''A'', Submit ''B'', Submit ''C'', BodySettles 0 (Returns Undefined), PlayThen 0]"
  define w where "w = after evs"
  define w' where "w' = snd (the (Scheduler_cancel w))"
  define later where "later = [Submit ''D'', BodySettles 3 (Returns Undefined), PlayThen 3]"
  define w'' where "w'' = the (run later w')"
  have "run evs (init ''ftp'') \<noteq> None" unfolding evs_def by code_simp
  then have r: "run evs (init ''ftp'') = Some w" unfolding w_def by (rule run_after)
  have c: "currentTask w = Some 1" unfolding w_def evs_def by code_simp
  have nt: "\<not> list_ex throws (cancelListeners (tasks w ! 1))" unfolding w_def evs_def by code_simp
  have pl: "list_all (\<lambda>l. disposes l = []) (cancelListeners (tasks w ! 1))"
    unfolding w_def evs_def by code_simp
  have q: "qstart w = 2" and l: "length (tasks w) = 3" and a: "act (tasks w ! 1) = Suspended"
    unfolding w_def evs_def by code_simp+
  have "run later w' \<noteq> None" unfolding later_def w'_def w_def evs_def by code_simp
  then have rl: "run later w' = Some w''" unfolding w''_def by auto
  have cs: "calls w'' = [0, 1, 3]" unfolding w''_def later_def w'_def w_def evs_def by code_simp
  note T = cancelAll_clears_lane_at_once [OF r]
  from T [THEN conjunct2, rule_format, of 1] c nt obtain u where
    u: "Scheduler_cancel w = Some (Ret (), u)" and
    f: "cancelled (tasks u ! 1)" "currentTask u = None" "nextTask u = None" "lastTask u = None"
       "act (tasks u ! 1) = act (tasks w ! 1)" and
    o: "list_all (\<lambda>l. disposes l = []) (cancelListeners (tasks w ! 1)) \<longrightarrow>
          (\<forall>b. b \<noteq> 1 \<longrightarrow> tasks u ! b = tasks w ! b)" and
    n: "\<forall>b evs' w''. qstart w \<le> b \<and> b < length (tasks w) \<and> run evs' u = Some w'' \<longrightarrow>
              state (tasks w'' ! b) = WAIT \<and> act (tasks w'' ! b) = NotCalled \<and>
              b \<notin> set (calls w'') \<and> \<not> cancelled (tasks w'' ! b)"
    by blast
  from u have uw: "u = w'" unfolding w'_def by simp
  have o2: "tasks w' ! 2 = tasks w ! 2" using o pl uw by simp
  have n2: "state (tasks w'' ! 2) = WAIT \<and> act (tasks w'' ! 2) = NotCalled \<and>
              2 \<notin> set (calls w'') \<and> \<not> cancelled (tasks w'' ! 2)"
    using n [rule_format, of 2 later w''] q l rl uw by simp
  have r0: "run [] (init ''ftp'') = Some (init ''ftp'')" by simp
  have c0: "currentTask (init ''ftp'') = None" by (simp add: init_def)
  have i0: "Scheduler_cancel (init ''ftp'') = Some (Ret (), init ''ftp'')"
    using cancelAll_clears_lane_at_once [OF r0, THEN conjunct1] c0 by simp
  from r c nt pl q l a u f o2 rl cs n2 r0 c0 i0 show ?thesis
    unfolding Let_def evs_def [symmetric] w_def [symmetric] w'_def [symmetric] later_def [symmetric]
      w''_def [symmetric] uw
    by simp
qed

text \<open>
  Against C4 as stated: \<open>A\<close> runs, \<open>B\<close> is pending, \<^verbatim>\<open>cancel()\<close> is called. The lane has no
  current task although \<^verbatim>\<open>play\<close> of \<open>A\<close> is still suspended in the body. (The only message
  is the one for \<open>A\<close>: \<open>A\<close> was taken from an empty chain, so its \<^verbatim>\<open>next\<close> is \<^verbatim>\<open>null\<close> and
  the loop does not reach \<open>B\<close>.)
\<close>

theorem cancelAll_idle_before_play_settles_counterexample:
  "(case run [Submit ''A'', Submit ''B'', CancelAll] (init ''ftp'') of
      None \<Rightarrow> False
    | Some w \<Rightarrow>
        currentTask w = None \<and> cancelled (tasks w ! 0) \<and> act (tasks w ! 0) = Suspended \<and>
        state (tasks w ! 1) = WAIT \<and> messageLog w = [''[ftp/A]task is cancelled''])"
  by code_simp

subsection \<open>The promise of a task\<close>

lemma progress_length [simp]:
  "wellformed w \<Longrightarrow> length (tasks (Scheduler_progress w)) = length (tasks w)"
  by (cases "nextTask w") (simp_all add: progress_idle progress_dequeue)

lemma progress_nth:
  assumes wf: "wellformed w" and b: "b < length (tasks w)"
  shows "tasks (Scheduler_progress w) ! b =
     (if nextTask w = Some b then (tasks w ! b)\<lparr>state := STARTED, act := Suspended\<rparr> else tasks w ! b)"
proof (cases "nextTask w")
  case None
  then show ?thesis by (simp add: progress_idle)
next
  case (Some k)
  have kl: "k < length (tasks w)" using wfD_some [OF wf Some] by simp
  show ?thesis using Some dequeued_nth [OF kl b] by (auto simp: progress_dequeue [OF wf Some])
qed

lemma progress_promise:
  "wellformed w \<Longrightarrow> b < length (tasks w) \<Longrightarrow>
   promise (tasks (Scheduler_progress w) ! b) = promise (tasks w ! b)"
  by (simp add: progress_nth)

lemma Scheduler_task_length:
  "wellformed w \<Longrightarrow> length (tasks (snd (Scheduler_task n w))) = Suc (length (tasks w))"
  by (simp add: Scheduler_task_enqueued wf_enqueued)

lemma Scheduler_task_promise:
  assumes wf: "wellformed w" and b: "b \<le> length (tasks w)"
  shows "promise (tasks (snd (Scheduler_task n w)) ! b) =
     (if b < length (tasks w) then promise (tasks w ! b) else Pending)"
proof -
  have e: "promise (tasks (enqueued n w) ! b) = (if b < length (tasks w) then promise (tasks w ! b) else Pending)"
  proof (cases "b < length (tasks w)")
    case True
    from enqueued_old [OF wf True] True show ?thesis by simp
  next
    case False
    with b have "b = length (tasks w)" by simp
    with enqueued_new [OF wf, of n] show ?thesis by (simp add: new_TaskImpl_def)
  qed
  have wfe: "wellformed (verbose (''[SCHEDULAR:'' @ sname w @ ''] busy'') (enqueued n w))"
    using wf_enqueued [OF wf] by simp
  have bl: "b < length (tasks (verbose (''[SCHEDULAR:'' @ sname w @ ''] busy'') (enqueued n w)))"
    using b by simp
  show ?thesis
    using e progress_promise [OF wfe bl] by (simp add: Scheduler_task_enqueued)
qed

lemma Scheduler_cancel_promise:
  assumes wf: "wellformed w" and s: "Scheduler_cancel w = Some (r, w')"
  shows "promise (tasks w' ! b) = promise (tasks w ! b) \<and> length (tasks w') = length (tasks w)"
proof (cases "currentTask w")
  case None
  with s show ?thesis by (simp add: Scheduler_cancel_idle)
next
  case (Some c)
  show ?thesis
  proof (cases "fst (TaskImpl_cancel c w)")
    case (Ret u)
    then have "TaskImpl_cancel c w = (Ret (), snd (TaskImpl_cancel c w))"
      by (metis prod.collapse old.unit.exhaust)
    from Scheduler_cancel_busy [OF wf Some this] s obtain ms where
      w': "w' = (snd (TaskImpl_cancel c w))
       \<lparr>messageLog := messageLog w @ cancelled_message w c # ms,
        currentTask := None, nextTask := None, lastTask := None\<rparr>"
      by auto
    show ?thesis unfolding w' using cancel_frame [of c w b] by (simp add: cancel_length)
  next
    case (Throw e)
    from Scheduler_cancel_throw [OF Some this] s show ?thesis
      using cancel_frame [of c w b] by (auto simp: cancel_length)
  qed
qed

lemma step_length:
  assumes wf: "wellformed w" and st: "step e w = Some w'"
  shows "length (tasks w') = (case e of Submit n \<Rightarrow> Suc (length (tasks w)) | _ \<Rightarrow> length (tasks w))"
proof (cases "quiet e")
  case True
  from core_fields(1) [OF core_quiet [OF True st]] True show ?thesis by (cases e) simp_all
next
  case False
  then show ?thesis
  proof (cases e)
    case (Submit n)
    with st show ?thesis by (auto simp: Scheduler_task_length [OF wf])
  next
    case CancelAll
    with st obtain r where "Scheduler_cancel w = Some (r, w')" by auto
    from Scheduler_cancel_promise [OF wf this] CancelAll show ?thesis by simp
  next
    case (BodySettles a oc)
    with st show ?thesis by auto
  next
    case (PlayThen a)
    have "length (tasks (Scheduler_progress (upd_task a (\<lambda>t. t\<lparr>act := Continued\<rparr>) w))) = length (tasks w)"
      by (cases "nextTask w") (simp_all add: Scheduler_progress_def TaskImpl_play_def Let_def split: option.splits)
    with PlayThen st show ?thesis by auto
  qed (use False in simp_all)
qed

lemma step_promise:
  assumes wf: "wellformed w" and en: "enabled e w" and st: "step e w = Some w'"
    and b: "b < length (tasks w')"
  shows "promise (tasks w' ! b) =
     (if settles_other b e then Fulfilled Undefined
      else if b < length (tasks w) then promise (tasks w ! b) else Pending)"
proof (cases "quiet e")
  case True
  note c = core_quiet [OF True st]
  from b core_fields(1) [OF c] have b': "b < length (tasks w)" by simp
  from core_task(3) [OF c b'] b' True show ?thesis by (cases e) simp_all
next
  case False
  then show ?thesis
  proof (cases e)
    case (Submit n)
    with st have w': "w' = snd (Scheduler_task n w)" by simp
    from b have "b \<le> length (tasks w)" unfolding w' by (simp add: Scheduler_task_length [OF wf])
    from Scheduler_task_promise [OF wf this] Submit show ?thesis unfolding w' by simp
  next
    case CancelAll
    with st obtain r where "Scheduler_cancel w = Some (r, w')" by auto
    from Scheduler_cancel_promise [OF wf this, of b] b CancelAll show ?thesis by simp
  next
    case (BodySettles a oc)
    with en have a: "a < length (tasks w)" by simp
    from BodySettles st have w': "w' = TaskImpl_play_resume a oc w" by simp
    from b have b': "b < length (tasks w)" unfolding w' by simp
    have p: "promise (tasks w ! a) = Pending \<or> promise (tasks w ! a) = Fulfilled Undefined"
      using wfD_all [OF wf a] by simp
    show ?thesis
      unfolding w' using BodySettles a b' p
      by (auto simp: play_resume_tasks nth_list_update resumed_def)
  next
    case (PlayThen a)
    with en have a: "a < length (tasks w)" and r: "act (tasks w ! a) = Returned" by simp_all
    have s: "state (tasks w ! a) \<noteq> WAIT" using wfD_wait [OF wf a] r by auto
    have wf': "wellformed (upd_task a (\<lambda>t. t\<lparr>act := Continued\<rparr>) w)"
      using wf a s by (rule wf_upd_task) (use wfD_all [OF wf a] in simp_all)
    from PlayThen st have w': "w' = Scheduler_progress (upd_task a (\<lambda>t. t\<lparr>act := Continued\<rparr>) w)" by simp
    from b have b': "b < length (tasks w)" unfolding w' using wf' by simp
    then have b'': "b < length (tasks (upd_task a (\<lambda>t. t\<lparr>act := Continued\<rparr>) w))" by simp
    from progress_promise [OF wf' b''] b' a PlayThen show ?thesis
      unfolding w' by (simp add: nth_list_update)
  qed (use False in simp_all)
qed

lemma promise_run:
  "run evs (init n) = Some w \<Longrightarrow>
     (\<forall>b. (list_ex (settles_other b) evs \<longrightarrow> b < length (tasks w)) \<and>
          (b < length (tasks w) \<longrightarrow>
             promise (tasks w ! b) = (if list_ex (settles_other b) evs then Fulfilled Undefined else Pending)))"
proof (induction evs arbitrary: w rule: rev_induct)
  case Nil
  then have "w = init n" by simp
  then show ?case by (simp add: init_def)
next
  case (snoc e evs)
  from snoc.prems obtain u where u: "run evs (init n) = Some u" and en: "enabled e u"
    and st: "step e u = Some w"
    by (auto simp: run_snoc)
  note ih = snoc.IH [OF u]
  have wf: "wellformed u" using u by (rule wf_reachable)
  have le: "length (tasks u) \<le> length (tasks w)"
    using step_length [OF wf st] by (cases e) simp_all
  show ?case
  proof (intro allI conjI impI)
    fix b
    assume "list_ex (settles_other b) (evs @ [e])"
    then have "list_ex (settles_other b) evs \<or> settles_other b e" by simp
    then show "b < length (tasks w)"
    proof
      assume "list_ex (settles_other b) evs"
      with ih le show ?thesis by auto
    next
      assume "settles_other b e"
      then obtain oc where "e = BodySettles b oc" by (cases e) auto
      with en le show ?thesis by simp
    qed
  next
    fix b
    assume b: "b < length (tasks w)"
    have old: "settles_other b e \<Longrightarrow> b < length (tasks u)"
    proof -
      assume "settles_other b e"
      then obtain oc where "e = BodySettles b oc" by (cases e) auto
      with en show ?thesis by simp
    qed
    show "promise (tasks w ! b) =
        (if list_ex (settles_other b) (evs @ [e]) then Fulfilled Undefined else Pending)"
    proof (cases "b < length (tasks u)")
      case True
      with ih have "promise (tasks u ! b) = (if list_ex (settles_other b) evs then Fulfilled Undefined else Pending)"
        by simp
      with step_promise [OF wf en st b] True show ?thesis by simp
    next
      case False
      with ih have "\<not> list_ex (settles_other b) evs" by auto
      moreover from False old have "\<not> settles_other b e" by auto
      ultimately show ?thesis using step_promise [OF wf en st b] False by simp
    qed
  qed
qed

text \<open>
  Claim C2, as the code has it. In every run, the promise of a task is fulfilled (with
  \<^verbatim>\<open>undefined\<close>) exactly if its body has settled other than by throwing \<^verbatim>\<open>CANCELLED\<close>: by
  returning, or by throwing any other value, which \<^verbatim>\<open>play\<close> logs as an error first (the
  \<^verbatim>\<open>undefined\<close> that a cancelled \<^verbatim>\<open>with\<close> rejects with is such a value). Otherwise it is
  pending: so it is never resolved for a body that ends by throwing \<^verbatim>\<open>CANCELLED\<close>, nor
  for a task that \<^verbatim>\<open>cancel()\<close> dropped from the chain, whose body never settles because it
  is never called.
\<close>

theorem completion_resolves_unless_cancelled_throw:
  "run evs (init n) = Some w \<Longrightarrow> a < length (tasks w) \<Longrightarrow>
     promise (tasks w ! a) = (if list_ex (settles_other a) evs then Fulfilled Undefined else Pending)"
  using promise_run by blast

theorem completion_resolves_unless_cancelled_throw_witness:
  "(let evs = [Submit ''A'', Submit ''B'', BodySettles 0 (Throws Undefined), PlayThen 0,
               BodySettles 1 (Throws CANCELLED)];
        w = after evs
    in run evs (init ''ftp'') = Some w \<and> 0 < length (tasks w) \<and> 1 < length (tasks w) \<and>
       list_ex (settles_other 0) evs \<and> \<not> list_ex (settles_other 1) evs \<and>
       promise (tasks w ! 0) = Fulfilled Undefined \<and> promise (tasks w ! 1) = Pending)"
proof -
  define evs where "evs = [Submit ''A'', Submit ''B'', BodySettles 0 (Throws Undefined), PlayThen 0,
               BodySettles 1 (Throws CANCELLED)]"
  define w where "w = after evs"
  have "run evs (init ''ftp'') \<noteq> None" unfolding evs_def by code_simp
  then have r: "run evs (init ''ftp'') = Some w" unfolding w_def by (rule run_after)
  have l0: "0 < length (tasks w)" and l1: "1 < length (tasks w)" unfolding w_def evs_def by code_simp+
  have s0: "list_ex (settles_other 0) evs" and s1: "\<not> list_ex (settles_other 1) evs"
    by (simp_all add: evs_def)
  from completion_resolves_unless_cancelled_throw [OF r l0] completion_resolves_unless_cancelled_throw [OF r l1] s0 s1
  have "promise (tasks w ! 0) = Fulfilled Undefined \<and> promise (tasks w ! 1) = Pending" by simp
  with r l0 l1 s0 s1 show ?thesis unfolding Let_def evs_def [symmetric] w_def [symmetric] by simp
qed

text \<open>
  Against C2 as stated. First run: \<open>A\<close> is cancelled while \<open>B\<close> is pending, the body of \<open>A\<close>
  then throws \<^verbatim>\<open>CANCELLED\<close> and the lane goes idle; the promises of \<open>A\<close> and of the
  discarded \<open>B\<close> are pending, and nothing is left that resolves them. Second run: the
  body throws an error that is not \<^verbatim>\<open>CANCELLED\<close>; the error is logged and the promise is
  resolved.
\<close>

theorem completion_counterexample:
  "(case run [Submit ''A'', Submit ''B'', CancelAll, BodySettles 0 (Throws CANCELLED), PlayThen 0]
         (init ''ftp'') of
      None \<Rightarrow> False
    | Some w \<Rightarrow>
        cancelled (tasks w ! 0) \<and> act (tasks w ! 0) = Continued \<and> promise (tasks w ! 0) = Pending \<and>
        state (tasks w ! 1) = WAIT \<and> promise (tasks w ! 1) = Pending \<and>
        currentTask w = None \<and> nextTask w = None) \<and>
   (case run [Submit ''A'', BodySettles 0 (Throws (Error ''boom''))] (init ''ftp'') of
      None \<Rightarrow> False
    | Some w \<Rightarrow>
        \<not> cancelled (tasks w ! 0) \<and> errorLog w = [Error ''boom''] \<and>
        promise (tasks w ! 0) = Fulfilled Undefined)"
  by code_simp

text \<open>
  Claim C10. In every run the promise of every task is pending or fulfilled with
  \<^verbatim>\<open>undefined\<close>, never rejected: the constructor keeps the resolver only, and \<^verbatim>\<open>play\<close>
  catches what the body throws.
\<close>

theorem completion_never_rejects:
  "run evs (init n) = Some w \<Longrightarrow> a < length (tasks w) \<Longrightarrow>
     (promise (tasks w ! a) = Pending \<or> promise (tasks w ! a) = Fulfilled Undefined) \<and>
     (\<forall>e. promise (tasks w ! a) \<noteq> Rejected e)"
proof -
  assume r: "run evs (init n) = Some w" and a: "a < length (tasks w)"
  from r have "wellformed w" by (rule wf_reachable)
  from wfD_all [OF this a] show ?thesis by auto
qed

theorem completion_never_rejects_witness:
  "(let evs = [Submit ''A'', Submit ''B'', BodySettles 0 (Throws (Error ''boom''))]; w = after evs
    in run evs (init ''ftp'') = Some w \<and> 0 < length (tasks w) \<and> 1 < length (tasks w) \<and>
       errorLog w = [Error ''boom''] \<and>
       promise (tasks w ! 0) = Fulfilled Undefined \<and> promise (tasks w ! 1) = Pending \<and>
       (\<forall>e. promise (tasks w ! 0) \<noteq> Rejected e) \<and> (\<forall>e. promise (tasks w ! 1) \<noteq> Rejected e))"
proof -
  define evs where "evs = [Submit ''A'', Submit ''B'', BodySettles 0 (Throws (Error ''boom''))]"
  define w where "w = after evs"
  have "run evs (init ''ftp'') \<noteq> None" unfolding evs_def by code_simp
  then have r: "run evs (init ''ftp'') = Some w" unfolding w_def by (rule run_after)
  have l0: "0 < length (tasks w)" and l1: "1 < length (tasks w)" unfolding w_def evs_def by code_simp+
  have e: "errorLog w = [Error ''boom'']" unfolding w_def evs_def by code_simp
  have p: "promise (tasks w ! 0) = Fulfilled Undefined" "promise (tasks w ! 1) = Pending"
    unfolding w_def evs_def by code_simp+
  from completion_never_rejects [OF r l0] completion_never_rejects [OF r l1]
  have "(\<forall>e. promise (tasks w ! 0) \<noteq> Rejected e) \<and> (\<forall>e. promise (tasks w ! 1) \<noteq> Rejected e)" by simp
  with r l0 l1 e p show ?thesis unfolding Let_def evs_def [symmetric] w_def [symmetric] by simp
qed

subsection \<open>Runs without cancel\<close>

















subsection \<open>A play that has settled had its body settle\<close>




lemma settled_verbose [simp]: "settled (verbose s w) b = settled w b"
  by (simp add: settled_def)





subsection \<open>The order in which tasks are started\<close>








text \<open>
  The reaction chained onto the \<^verbatim>\<open>play\<close> of a cancelled task still runs when that task
  ends. Going on from the run above: \<open>A\<close> finishes, its reaction finds the chain empty and
  sets \<^verbatim>\<open>currentTask = null\<close> under the running \<open>B\<close>, and \<open>C\<close> is called at submission.
\<close>

lemma reaction_of_cancelled_play:
  "(case run [Submit ''A'', CancelAll, Submit ''B'', BodySettles 0 (Returns Undefined), PlayThen 0,
              Submit ''C''] (init ''ftp'') of
      None \<Rightarrow> False
    | Some w \<Rightarrow>
        calls w = [0, 1, 2] \<and> \<not> cancelled (tasks w ! 1) \<and> \<not> cancelled (tasks w ! 2) \<and>
        act (tasks w ! 1) = Suspended \<and> act (tasks w ! 2) = Suspended)"
  by code_simp

section \<open>Waiting with cancellation\<close>

subsection \<open>The promise of with\<close>

lemma settle_wrapped:
  "length (wrapped (settle q s w)) = length (wrapped w)"
  "p < length (wrapped w) \<Longrightarrow>
   wrapped (settle q s w) ! p =
     (if p = q \<and> st (wrapped w ! p) = Pending then (wrapped w ! p)\<lparr>st := s\<rparr> else wrapped w ! p)"
  by (auto simp: settle_def nth_list_update)

lemma invoke_wrapped:
  "length (wrapped (snd (invoke cb w))) = length (wrapped w)"
  "p < length (wrapped w) \<Longrightarrow>
   wrapped (snd (invoke cb w)) ! p =
     (if cb = RejectOf p \<and> st (wrapped w ! p) = Pending then (wrapped w ! p)\<lparr>st := Rejected Undefined\<rparr>
      else wrapped w ! p)"
  by (cases "(cb, w)" rule: invoke.cases; auto simp: settle_wrapped)+

text \<open>
  A loop in which no listener throws or disposes a handle of the task calls every
  \<^verbatim>\<open>reject\<close> that is in the array, and a promise is rejected by it if it was pending.
\<close>

lemma fireLoop_wrapped:
  "\<not> list_ex throws (drop i (cancelListeners (tasks w ! a))) \<Longrightarrow>
   list_all (spares a w) (drop i (cancelListeners (tasks w ! a))) \<Longrightarrow> p < length (wrapped w) \<Longrightarrow>
   length (wrapped (snd (fireLoop a i w))) = length (wrapped w) \<and>
   wrapped (snd (fireLoop a i w)) ! p =
     (if RejectOf p \<in> set (drop i (cancelListeners (tasks w ! a))) \<and> st (wrapped w ! p) = Pending
      then (wrapped w ! p)\<lparr>st := Rejected Undefined\<rparr>
      else wrapped w ! p)"
proof (induction a i w rule: fireLoop.induct)
  case (1 a i w)
  let ?ls = "cancelListeners (tasks w ! a)"
  show ?case
  proof (cases "i < length ?ls")
    case False
    then show ?thesis by (simp add: fireLoop_end)
  next
    case True
    let ?l = "?ls ! i"
    have d: "drop i ?ls = ?l # drop (Suc i) ?ls" using True by (simp add: Cons_nth_drop_Suc)
    from "1.prems"(1) d have nl: "\<not> throws ?l" and nls: "\<not> list_ex throws (drop (Suc i) ?ls)"
      by simp_all
    from "1.prems"(2) d have sl: "spares a w ?l" and sls: "list_all (spares a w) (drop (Suc i) ?ls)"
      by simp_all
    obtain r u where iv: "invoke ?l w = (r, u)" by (cases "invoke ?l w")
    then have u: "u = snd (invoke ?l w)" by simp
    from nl fst_invoke [of ?l w] iv have r: "r = Ret ()" by simp
    have ua: "tasks u ! a = tasks w ! a" unfolding u using sl by (rule invoke_spared)
    have hu: "map task (handles u) = map task (handles w)" unfolding u by simp
    have lu: "length (wrapped u) = length (wrapped w)" unfolding u by (rule invoke_wrapped)
    have pu: "wrapped u ! p =
       (if ?l = RejectOf p \<and> st (wrapped w ! p) = Pending then (wrapped w ! p)\<lparr>st := Rejected Undefined\<rparr>
        else wrapped w ! p)"
      unfolding u using "1.prems"(3) by (rule invoke_wrapped)
    have nu: "\<not> list_ex throws (drop (Suc i) (cancelListeners (tasks u ! a)))" using nls ua by simp
    have su: "list_all (spares a u) (drop (Suc i) (cancelListeners (tasks u ! a)))"
      using sls ua spares_handles [OF hu, of a] unfolding u by (simp add: list_all_iff)
    have pl: "p < length (wrapped u)" using "1.prems"(3) lu by simp
    have eq: "fireLoop a i w = fireLoop a (Suc i) u"
      using True iv [unfolded r] by (rule fireLoop_next)
    from "1.IH" [OF True iv [symmetric] r nu su pl] ua
    have "length (wrapped (snd (fireLoop a (Suc i) u))) = length (wrapped u) \<and>
       wrapped (snd (fireLoop a (Suc i) u)) ! p =
         (if RejectOf p \<in> set (drop (Suc i) ?ls) \<and> st (wrapped u ! p) = Pending
          then (wrapped u ! p)\<lparr>st := Rejected Undefined\<rparr>
          else wrapped u ! p)"
      by simp
    then show ?thesis unfolding eq d using lu pu by auto
  qed
qed

lemma wrapped_upd_task [simp]: "wrapped (upd_task a f w) = wrapped w"
  by (simp add: upd_task_def)

lemma cancel_wrapped:
  assumes nt: "\<not> list_ex throws (cancelListeners (tasks w ! a))"
    and sp: "list_all (spares a w) (cancelListeners (tasks w ! a))"
    and nc: "\<not> cancelled (tasks w ! a)"
    and a: "a < length (tasks w)" and p: "p < length (wrapped w)"
  shows "wrapped (snd (TaskImpl_cancel a w)) ! p =
     (if RejectOf p \<in> set (cancelListeners (tasks w ! a)) \<and> st (wrapped w ! p) = Pending
      then (wrapped w ! p)\<lparr>st := Rejected Undefined\<rparr> else wrapped w ! p)"
proof -
  let ?u = "upd_task a (\<lambda>t. t\<lparr>cancelled := True\<rparr>) w"
  let ?ls = "cancelListeners (tasks w ! a)"
  have lu: "cancelListeners (tasks ?u ! a) = ?ls" by (rule listeners_flag)
  have n: "\<not> list_ex throws (drop 0 (cancelListeners (tasks ?u ! a)))" unfolding lu using nt by simp
  have s: "list_all (spares a ?u) (drop 0 (cancelListeners (tasks ?u ! a)))"
    unfolding lu using sp by (simp add: list_all_iff)
  have pu: "p < length (wrapped ?u)" using p by simp
  from fireLoop_wrapped [OF n s pu] have "wrapped (snd (fireLoop a 0 ?u)) ! p =
     (if RejectOf p \<in> set ?ls \<and> st (wrapped w ! p) = Pending
      then (wrapped w ! p)\<lparr>st := Rejected Undefined\<rparr> else wrapped w ! p)"
    unfolding lu by simp
  then show ?thesis
    using nc by (simp add: cancel_snd fireCancel_snd)
qed

text \<open>The handle that \<^verbatim>\<open>with\<close> makes is held by nobody, so no listener disposes it.\<close>

lemma spares_with:
  assumes s: "state (tasks w ! a) = STARTED" and nc: "\<not> cancelled (tasks w ! a)"
    and sp: "spares b w l"
  shows "spares b (snd (TaskImpl_with a w)) l"
proof -
  let ?w1 = "snd (TaskImpl_with a w)"
  have h1: "handles ?w1 = handles w @ [\<lparr>task = a, target = Some (RejectOf (length (wrapped w)))\<rparr>]"
    using s nc by (simp add: TaskImpl_with_def new_wrapper_def TaskImpl_oncancel_def new_OnCancel_def
        upd_task_def Let_def)
  have "held h ?w1 \<Longrightarrow> held h w \<and> handles ?w1 ! h = handles w ! h" for h
    using h1 by (cases "h < length (handles w)") (auto simp: held_def nth_append)
  with sp show ?thesis by (auto simp: spares_def list_all_iff)
qed

lemma with_not_started:
  "state (tasks w ! a) \<noteq> STARTED \<Longrightarrow>
   TaskImpl_with a w =
     (Ret (length (wrapped w)),
      w\<lparr>wrapped := wrapped w @ [\<lparr>st = Rejected (Error ''Task.with must call in task''), owner = a, waiting = False\<rparr>]\<rparr>)"
  by (simp add: TaskImpl_with_def new_wrapper_def)

lemma with_cancelled:
  "state (tasks w ! a) = STARTED \<Longrightarrow> cancelled (tasks w ! a) \<Longrightarrow>
   TaskImpl_with a w =
     (Ret (length (wrapped w)),
      w\<lparr>wrapped := wrapped w @ [\<lparr>st = Rejected CANCELLED, owner = a, waiting = False\<rparr>]\<rparr>)"
  by (simp add: TaskImpl_with_def new_wrapper_def)

lemma with_started:
  "state (tasks w ! a) = STARTED \<Longrightarrow> \<not> cancelled (tasks w ! a) \<Longrightarrow>
   TaskImpl_with a w =
     (Ret (length (wrapped w)),
      w\<lparr>tasks := (tasks w)[a := (tasks w ! a)\<lparr>cancelListeners := cancelListeners (tasks w ! a) @ [RejectOf (length (wrapped w))]\<rparr>],
        wrapped := wrapped w @ [\<lparr>st = Pending, owner = a, waiting = True\<rparr>],
        handles := handles w @ [\<lparr>task = a, target = Some (RejectOf (length (wrapped w)))\<rparr>]\<rparr>)"
  by (simp add: TaskImpl_with_def new_wrapper_def oncancel_pending upd_task_def Let_def)

text \<open>
  Claim C3, at the cancellation that comes before the operation settles. The task is
  started and not cancelled, and none of its listeners throws or disposes a handle of the
  task (so that the loop of \<^verbatim>\<open>fireCancel\<close> gets to the listener of the wait).
  \<^verbatim>\<open>with\<close> returns a pending promise; \<^verbatim>\<open>cancel()\<close> then calls the listener \<^verbatim>\<open>reject\<close> with no argument, so the promise
  is rejected with \<^verbatim>\<open>undefined\<close> and not with \<^verbatim>\<open>CANCELLED\<close>, which is what the claim says
  and what \<^verbatim>\<open>with\<close> itself rejects with on a task that is cancelled already. The rest is
  as claimed: the reactions on the operation return at once on a cancelled task, so its
  outcome changes nothing.
\<close>

theorem with_cancel_rejects_undefined:
  "a < length (tasks w) \<Longrightarrow> state (tasks w ! a) = STARTED \<Longrightarrow> \<not> cancelled (tasks w ! a) \<Longrightarrow>
   \<not> list_ex throws (cancelListeners (tasks w ! a)) \<Longrightarrow>
   list_all (spares a w) (cancelListeners (tasks w ! a)) \<Longrightarrow>
     (let p = length (wrapped w); w1 = snd (TaskImpl_with a w); w2 = snd (TaskImpl_cancel a w1)
      in fst (TaskImpl_with a w) = Ret p \<and> wrapped w1 ! p = \<lparr>st = Pending, owner = a, waiting = True\<rparr> \<and>
         fst (TaskImpl_cancel a w1) = Ret () \<and>
         wrapped w2 ! p = \<lparr>st = Rejected Undefined, owner = a, waiting = True\<rparr> \<and>
         st (wrapped w2 ! p) \<noteq> Rejected CANCELLED \<and>
         (\<forall>v. with_then p v w2 = w2 \<and> with_catch p v w2 = w2))"
proof -
  assume a: "a < length (tasks w)" and s: "state (tasks w ! a) = STARTED"
    and nc: "\<not> cancelled (tasks w ! a)" and nt: "\<not> list_ex throws (cancelListeners (tasks w ! a))"
    and sp: "list_all (spares a w) (cancelListeners (tasks w ! a))"
  define p where "p = length (wrapped w)"
  define w1 where "w1 = snd (TaskImpl_with a w)"
  define w2 where "w2 = snd (TaskImpl_cancel a w1)"
  note ws = with_started [OF s nc]
  have r: "fst (TaskImpl_with a w) = Ret p" using ws by (simp add: p_def)
  have w1: "w1 = w\<lparr>tasks := (tasks w)[a := (tasks w ! a)\<lparr>cancelListeners := cancelListeners (tasks w ! a) @ [RejectOf p]\<rparr>],
        wrapped := wrapped w @ [\<lparr>st = Pending, owner = a, waiting = True\<rparr>],
        handles := handles w @ [\<lparr>task = a, target = Some (RejectOf p)\<rparr>]\<rparr>"
    unfolding w1_def p_def using ws by simp
  have p1: "wrapped w1 ! p = \<lparr>st = Pending, owner = a, waiting = True\<rparr>"
    unfolding w1 by (simp add: p_def)
  have l1: "cancelListeners (tasks w1 ! a) = cancelListeners (tasks w ! a) @ [RejectOf p]"
    unfolding w1 using a by simp
  have nt1: "\<not> list_ex throws (cancelListeners (tasks w1 ! a))" using nt l1 by simp
  have nc1: "\<not> cancelled (tasks w1 ! a)" unfolding w1 using a nc by simp
  have a1: "a < length (tasks w1)" unfolding w1 using a by simp
  have pl: "p < length (wrapped w1)" unfolding w1 by (simp add: p_def)
  have "spares a w1 l" if "l \<in> set (cancelListeners (tasks w ! a))" for l
  proof -
    from sp that have "spares a w l" by (simp add: list_all_iff)
    with s nc show ?thesis unfolding w1_def by (rule spares_with)
  qed
  moreover have "spares a w1 (RejectOf p)" by (simp add: spares_def)
  ultimately have sp1: "list_all (spares a w1) (cancelListeners (tasks w1 ! a))"
    by (simp add: l1 list_all_iff)
  have rc: "fst (TaskImpl_cancel a w1) = Ret ()" using nt1 by (simp add: cancel_no_throw)
  have p2: "wrapped w2 ! p = \<lparr>st = Rejected Undefined, owner = a, waiting = True\<rparr>"
    unfolding w2_def using cancel_wrapped [OF nt1 sp1 nc1 a1 pl] l1 p1 by simp
  have c2: "cancelled (tasks w2 ! a)"
    unfolding w2_def using a1 by (rule cancel_flag)
  have late: "\<forall>v. with_then p v w2 = w2 \<and> with_catch p v w2 = w2"
    using p2 c2 by (simp add: with_then_def with_catch_def)
  from r p1 rc p2 late show ?thesis
    unfolding Let_def p_def [symmetric] w1_def [symmetric] w2_def [symmetric] by simp
qed

theorem with_cancel_rejects_undefined_witness:
  "(let w = after [Submit ''A'', CallOncancel 0 (UserFn 1 [] None)];
        w1 = snd (TaskImpl_with 0 w); w2 = snd (TaskImpl_cancel 0 w1)
    in 0 < length (tasks w) \<and> state (tasks w ! 0) = STARTED \<and> \<not> cancelled (tasks w ! 0) \<and>
       cancelListeners (tasks w ! 0) = [UserFn 1 [] None] \<and>
       \<not> list_ex throws (cancelListeners (tasks w ! 0)) \<and>
       list_all (spares 0 w) (cancelListeners (tasks w ! 0)) \<and> length (wrapped w) = 0 \<and>
       fst (TaskImpl_with 0 w) = Ret 0 \<and> wrapped w1 ! 0 = \<lparr>st = Pending, owner = 0, waiting = True\<rparr> \<and>
       wrapped w2 ! 0 = \<lparr>st = Rejected Undefined, owner = 0, waiting = True\<rparr> \<and>
       st (wrapped w2 ! 0) \<noteq> Rejected CANCELLED \<and>
       with_then 0 (Val 7) w2 = w2 \<and>
       st (wrapped (snd (TaskImpl_with 0 w2)) ! 1) = Rejected CANCELLED)"
proof -
  define w where "w = after [Submit ''A'', CallOncancel 0 (UserFn 1 [] None)]"
  have l: "0 < length (tasks w)" and s: "state (tasks w ! 0) = STARTED"
    and nc: "\<not> cancelled (tasks w ! 0)" and nt: "\<not> list_ex throws (cancelListeners (tasks w ! 0))"
    and sp: "list_all (spares 0 w) (cancelListeners (tasks w ! 0))"
    and lw: "length (wrapped w) = 0"
    and ls: "cancelListeners (tasks w ! 0) = [UserFn 1 [] None]"
    unfolding w_def by code_simp+
  have sib: "st (wrapped (snd (TaskImpl_with 0 (snd (TaskImpl_cancel 0 (snd (TaskImpl_with 0 w)))))) ! 1) = Rejected CANCELLED"
    unfolding w_def by code_simp
  from with_cancel_rejects_undefined [OF l s nc nt sp] lw
  have "fst (TaskImpl_with 0 w) = Ret 0 \<and>
       wrapped (snd (TaskImpl_with 0 w)) ! 0 = \<lparr>st = Pending, owner = 0, waiting = True\<rparr> \<and>
       wrapped (snd (TaskImpl_cancel 0 (snd (TaskImpl_with 0 w)))) ! 0 = \<lparr>st = Rejected Undefined, owner = 0, waiting = True\<rparr> \<and>
       st (wrapped (snd (TaskImpl_cancel 0 (snd (TaskImpl_with 0 w)))) ! 0) \<noteq> Rejected CANCELLED \<and>
       with_then 0 (Val 7) (snd (TaskImpl_cancel 0 (snd (TaskImpl_with 0 w)))) = snd (TaskImpl_cancel 0 (snd (TaskImpl_with 0 w)))"
    by (simp add: Let_def)
  with l s nc ls nt sp lw sib show ?thesis unfolding Let_def w_def [symmetric] by simp
qed

lemma invoke_settled:
  "p < length (wrapped w) \<Longrightarrow> st (wrapped w ! p) \<noteq> Pending \<Longrightarrow>
   wrapped (snd (invoke cb w)) ! p = wrapped w ! p"
  by (cases "(cb, w)" rule: invoke.cases) (auto simp: settle_wrapped)

lemma fireLoop_settled:
  "length (wrapped (snd (fireLoop a i w))) = length (wrapped w) \<and>
   (p < length (wrapped w) \<and> st (wrapped w ! p) \<noteq> Pending \<longrightarrow>
      wrapped (snd (fireLoop a i w)) ! p = wrapped w ! p)"
proof (rule fireLoop_rel [where R = "\<lambda>w w'. length (wrapped w') = length (wrapped w) \<and>
   (p < length (wrapped w) \<and> st (wrapped w ! p) \<noteq> Pending \<longrightarrow> wrapped w' ! p = wrapped w ! p)"])
  show "\<And>w. length (wrapped w) = length (wrapped w) \<and>
      (p < length (wrapped w) \<and> st (wrapped w ! p) \<noteq> Pending \<longrightarrow> wrapped w ! p = wrapped w ! p)"
    by simp
  show "\<And>u v w. length (wrapped v) = length (wrapped u) \<and>
      (p < length (wrapped u) \<and> st (wrapped u ! p) \<noteq> Pending \<longrightarrow> wrapped v ! p = wrapped u ! p) \<Longrightarrow>
      length (wrapped w) = length (wrapped v) \<and>
      (p < length (wrapped v) \<and> st (wrapped v ! p) \<noteq> Pending \<longrightarrow> wrapped w ! p = wrapped v ! p) \<Longrightarrow>
      length (wrapped w) = length (wrapped u) \<and>
      (p < length (wrapped u) \<and> st (wrapped u ! p) \<noteq> Pending \<longrightarrow> wrapped w ! p = wrapped u ! p)"
    by auto
  show "\<And>cb w. length (wrapped (snd (invoke cb w))) = length (wrapped w) \<and>
      (p < length (wrapped w) \<and> st (wrapped w ! p) \<noteq> Pending \<longrightarrow>
         wrapped (snd (invoke cb w)) ! p = wrapped w ! p)"
    by (simp add: invoke_wrapped(1) invoke_settled)
qed

lemma cancel_settled:
  assumes p: "p < length (wrapped w)" and s: "st (wrapped w ! p) \<noteq> Pending"
  shows "wrapped (snd (TaskImpl_cancel a w)) ! p = wrapped w ! p"
proof (cases "cancelled (tasks w ! a)")
  case True
  then show ?thesis by (simp add: cancel_again)
next
  case False
  let ?u = "upd_task a (\<lambda>t. t\<lparr>cancelled := True\<rparr>) w"
  from fireLoop_settled [of a 0 ?u p] p s
  have "wrapped (snd (fireLoop a 0 ?u)) ! p = wrapped w ! p" by simp
  with False show ?thesis by (simp add: cancel_snd fireCancel_snd)
qed

text \<open>
  The other half of \<^verbatim>\<open>with\<close>: the operation settles before any cancellation. The
  reaction takes the listener away again and settles the promise with the outcome, and a
  cancellation after that leaves the promise as it is.
\<close>

lemma with_settles_first:
  assumes a: "a < length (tasks w)" and s: "state (tasks w ! a) = STARTED"
    and nc: "\<not> cancelled (tasks w ! a)"
  shows "(let p = length (wrapped w); w1 = snd (TaskImpl_with a w);
              w3 = with_then p v w1; w4 = with_catch p v w1
          in cancelListeners (tasks w3 ! a) = cancelListeners (tasks w ! a) \<and>
             wrapped w3 ! p = \<lparr>st = Fulfilled v, owner = a, waiting = True\<rparr> \<and>
             wrapped (snd (TaskImpl_cancel a w3)) ! p = wrapped w3 ! p \<and>
             cancelListeners (tasks w4 ! a) = cancelListeners (tasks w ! a) \<and>
             wrapped w4 ! p = \<lparr>st = Rejected v, owner = a, waiting = True\<rparr> \<and>
             wrapped (snd (TaskImpl_cancel a w4)) ! p = wrapped w4 ! p)"
proof -
  define p where "p = length (wrapped w)"
  define w1 where "w1 = snd (TaskImpl_with a w)"
  define ls where "ls = cancelListeners (tasks w ! a)"
  note ws = with_started [OF s nc]
  have w1: "w1 = w\<lparr>tasks := (tasks w)[a := (tasks w ! a)\<lparr>cancelListeners := ls @ [RejectOf p]\<rparr>],
        wrapped := wrapped w @ [\<lparr>st = Pending, owner = a, waiting = True\<rparr>],
        handles := handles w @ [\<lparr>task = a, target = Some (RejectOf p)\<rparr>]\<rparr>"
    unfolding w1_def p_def ls_def using ws by simp
  have o: "owner (wrapped w1 ! p) = a" and nc1: "\<not> cancelled (tasks w1 ! a)"
    and l1: "cancelListeners (tasks w1 ! a) = ls @ RejectOf p # []"
    unfolding w1 using a nc by (simp_all add: p_def)
  from remove_last [OF l1] have rm: "TaskImpl_removeCancelListener a (RejectOf p) w1 =
     (Ret True, upd_task a (\<lambda>t. t\<lparr>cancelListeners := ls @ []\<rparr>) w1)" by simp
  define u where "u = upd_task a (\<lambda>t. t\<lparr>cancelListeners := ls\<rparr>) w1"
  have pu: "wrapped u ! p = \<lparr>st = Pending, owner = a, waiting = True\<rparr>" and plu: "p < length (wrapped u)"
    and lu: "cancelListeners (tasks u ! a) = ls"
    unfolding u_def w1 using a by (simp_all add: p_def)
  have t: "with_then p v w1 = settle p (Fulfilled v) u"
    using o nc1 rm by (simp add: with_then_def u_def)
  have c: "with_catch p v w1 = settle p (Rejected v) u"
    using o nc1 rm by (simp add: with_catch_def u_def)
  have s3: "wrapped (with_then p v w1) ! p = \<lparr>st = Fulfilled v, owner = a, waiting = True\<rparr>"
    and l3: "cancelListeners (tasks (with_then p v w1) ! a) = ls"
    and p3: "p < length (wrapped (with_then p v w1))"
    unfolding t using pu plu lu by (simp_all add: settle_wrapped)
  have s4: "wrapped (with_catch p v w1) ! p = \<lparr>st = Rejected v, owner = a, waiting = True\<rparr>"
    and l4: "cancelListeners (tasks (with_catch p v w1) ! a) = ls"
    and p4: "p < length (wrapped (with_catch p v w1))"
    unfolding c using pu plu lu by (simp_all add: settle_wrapped)
  have k3: "wrapped (snd (TaskImpl_cancel a (with_then p v w1))) ! p = wrapped (with_then p v w1) ! p"
    using p3 s3 by (intro cancel_settled) simp_all
  have k4: "wrapped (snd (TaskImpl_cancel a (with_catch p v w1))) ! p = wrapped (with_catch p v w1) ! p"
    using p4 s4 by (intro cancel_settled) simp_all
  from s3 l3 k3 s4 l4 k4 show ?thesis
    unfolding Let_def p_def [symmetric] w1_def [symmetric] ls_def [symmetric] by simp
qed

text \<open>
  \<^verbatim>\<open>with\<close> gives the operation two reactions, each through a call of its own
  (\<^verbatim>\<open>waitWith.then(..)\<close>, \<^verbatim>\<open>waitWith.catch(..)\<close>), and drops the promise that \<^verbatim>\<open>then\<close>
  returns. A rejection of the operation therefore rejects that promise with nothing to
  handle it, whether the task is cancelled or not.
\<close>

lemma wait_rejection_unhandled:
  "step (WaitSettles p (Throws e)) w = Some w' \<Longrightarrow> unhandled w' = unhandled w @ [e]"
  "step (WaitSettles p (Returns v)) w = Some w' \<Longrightarrow> unhandled w' = unhandled w"
  by (auto simp: with_then_def with_catch_def settle_def TaskImpl_removeCancelListener_def
        upd_task_def Let_def)

subsection \<open>with outside the body\<close>

text \<open>
  Claim C5, at a task whose \<^verbatim>\<open>play\<close> has settled. No run ever writes \<^verbatim>\<open>DONE\<close>: the state
  of such a task is still \<^verbatim>\<open>STARTED\<close>, the guard of \<^verbatim>\<open>with\<close> lets the call through, and
  the result is a pending promise that waits on the operation (or one rejected with
  \<^verbatim>\<open>CANCELLED\<close> if the task is cancelled), never one rejected with the error of the
  guard. Before the start the guard does what the claim says (\<open>with_not_started\<close>).
\<close>

theorem with_after_completion_not_rejected:
  "run evs (init n) = Some w \<Longrightarrow> settled w a \<Longrightarrow>
     state (tasks w ! a) = STARTED \<and>
     fst (TaskImpl_with a w) = Ret (length (wrapped w)) \<and>
     wrapped (snd (TaskImpl_with a w)) ! length (wrapped w) =
       (if cancelled (tasks w ! a) then \<lparr>st = Rejected CANCELLED, owner = a, waiting = False\<rparr>
        else \<lparr>st = Pending, owner = a, waiting = True\<rparr>) \<and>
     st (wrapped (snd (TaskImpl_with a w)) ! length (wrapped w)) \<noteq> Rejected (Error ''Task.with must call in task'')"
proof -
  assume r: "run evs (init n) = Some w" and s: "settled w a"
  from r have wf: "wellformed w" by (rule wf_reachable)
  from s have a: "a < length (tasks w)" and ac: "act (tasks w ! a) = Returned \<or> act (tasks w ! a) = Continued"
    by (simp_all add: settled_def)
  have "state (tasks w ! a) \<noteq> WAIT" using wfD_wait [OF wf a] ac by auto
  moreover have "state (tasks w ! a) \<noteq> DONE" using wfD_all [OF wf a] by simp
  ultimately have st: "state (tasks w ! a) = STARTED" by (cases "state (tasks w ! a)") simp_all
  show ?thesis
  proof (cases "cancelled (tasks w ! a)")
    case True
    from with_cancelled [OF st True] st True show ?thesis by simp
  next
    case False
    from with_started [OF st False] st False show ?thesis by simp
  qed
qed

theorem with_after_completion_not_rejected_witness:
  "(let evs = [Submit ''A'', BodySettles 0 (Returns Undefined), PlayThen 0]; w = after evs
    in run evs (init ''ftp'') = Some w \<and> settled w 0 \<and> act (tasks w ! 0) = Continued \<and>
       promise (tasks w ! 0) = Fulfilled Undefined \<and> currentTask w = None \<and>
       \<not> cancelled (tasks w ! 0) \<and> length (wrapped w) = 0 \<and>
       state (tasks w ! 0) = STARTED \<and>
       fst (TaskImpl_with 0 w) = Ret 0 \<and>
       wrapped (snd (TaskImpl_with 0 w)) ! 0 = \<lparr>st = Pending, owner = 0, waiting = True\<rparr> \<and>
       cancelListeners (tasks (snd (TaskImpl_with 0 w)) ! 0) = [RejectOf 0] \<and>
       wrapped (snd (TaskImpl_with 1 (after [Submit ''A'', Submit ''B''])))
         = [\<lparr>st = Rejected (Error ''Task.with must call in task''), owner = 1, waiting = False\<rparr>])"
proof -
  define evs where "evs = [Submit ''A'', BodySettles 0 (Returns Undefined), PlayThen 0]"
  define w where "w = after evs"
  have "run evs (init ''ftp'') \<noteq> None" unfolding evs_def by code_simp
  then have r: "run evs (init ''ftp'') = Some w" unfolding w_def by (rule run_after)
  have s: "settled w 0" unfolding w_def evs_def by code_simp
  have f: "act (tasks w ! 0) = Continued" "promise (tasks w ! 0) = Fulfilled Undefined"
    "currentTask w = None" "\<not> cancelled (tasks w ! 0)" "length (wrapped w) = 0"
    "cancelListeners (tasks (snd (TaskImpl_with 0 w)) ! 0) = [RejectOf 0]"
    unfolding w_def evs_def by code_simp+
  have e: "wrapped (snd (TaskImpl_with 1 (after [Submit ''A'', Submit ''B''])))
         = [\<lparr>st = Rejected (Error ''Task.with must call in task''), owner = 1, waiting = False\<rparr>]"
    by code_simp
  from with_after_completion_not_rejected [OF r s] f
  have "state (tasks w ! 0) = STARTED \<and> fst (TaskImpl_with 0 w) = Ret 0 \<and>
       wrapped (snd (TaskImpl_with 0 w)) ! 0 = \<lparr>st = Pending, owner = 0, waiting = True\<rparr>"
    by simp
  with r s f e show ?thesis unfolding Let_def evs_def [symmetric] w_def [symmetric] by simp
qed

subsection \<open>Cancelling after the body has finished\<close>

text \<open>
  Claim C6, as the code has it. \<^verbatim>\<open>cancel()\<close> never changes the promise, the state or the
  \<^verbatim>\<open>play\<close> of any task, so it cannot change the outcome of a task whose body has
  finished. But it does not look at the state: on a task that is not yet cancelled it
  sets the flag and walks the array of listeners, finished body or not. The listener
  registered first is called in any case; and when the listeners that are called dispose
  no handle of the task, those called are the registered ones in registration order, up
  to and including the first that throws.
\<close>

theorem cancel_after_finish_fires_listeners:
  "a < length (tasks w) \<Longrightarrow> TaskImpl_cancel a w = (r, w') \<Longrightarrow>
     length (tasks w') = length (tasks w) \<and>
     (\<forall>b. promise (tasks w' ! b) = promise (tasks w ! b) \<and>
          state (tasks w' ! b) = state (tasks w ! b) \<and>
          act (tasks w' ! b) = act (tasks w ! b)) \<and>
     (if cancelled (tasks w ! a) then fired w' = fired w
      else cancelled (tasks w' ! a) \<and>
           (cancelListeners (tasks w ! a) \<noteq> [] \<longrightarrow>
              (\<exists>fs. fired w' = fired w @ hd (cancelListeners (tasks w ! a)) # fs)) \<and>
           (list_all (spares a w) (upto_throw (cancelListeners (tasks w ! a))) \<longrightarrow>
              fired w' = fired w @ upto_throw (cancelListeners (tasks w ! a))))"
proof -
  assume a: "a < length (tasks w)" and c: "TaskImpl_cancel a w = (r, w')"
  have w': "w' = snd (TaskImpl_cancel a w)" using c by simp
  have fr: "\<forall>b. promise (tasks w' ! b) = promise (tasks w ! b) \<and>
          state (tasks w' ! b) = state (tasks w ! b) \<and>
          act (tasks w' ! b) = act (tasks w ! b)"
    unfolding w' by (simp add: cancel_frame)
  have len: "length (tasks w') = length (tasks w)"
    unfolding w' by (rule cancel_length)
  have fl: "if cancelled (tasks w ! a) then fired w' = fired w
      else cancelled (tasks w' ! a) \<and>
           (cancelListeners (tasks w ! a) \<noteq> [] \<longrightarrow>
              (\<exists>fs. fired w' = fired w @ hd (cancelListeners (tasks w ! a)) # fs)) \<and>
           (list_all (spares a w) (upto_throw (cancelListeners (tasks w ! a))) \<longrightarrow>
              fired w' = fired w @ upto_throw (cancelListeners (tasks w ! a)))"
  proof (cases "cancelled (tasks w ! a)")
    case True
    then show ?thesis unfolding w' by (simp add: cancel_again)
  next
    case False
    have flag: "cancelled (tasks w' ! a)" unfolding w' using a by (rule cancel_flag)
    from cancel_calls [OF False] obtain fs where
      fs: "fired w' = fired w @ fs"
        "cancelListeners (tasks w ! a) \<noteq> [] \<longrightarrow> fs \<noteq> [] \<and> hd fs = hd (cancelListeners (tasks w ! a))"
      unfolding w' by blast
    have first: "cancelListeners (tasks w ! a) \<noteq> [] \<longrightarrow>
              (\<exists>fs. fired w' = fired w @ hd (cancelListeners (tasks w ! a)) # fs)"
    proof
      assume "cancelListeners (tasks w ! a) \<noteq> []"
      with fs(2) have "fs \<noteq> []" and "hd fs = hd (cancelListeners (tasks w ! a))" by simp_all
      then have "fs = hd (cancelListeners (tasks w ! a)) # tl fs" by (cases fs) simp_all
      with fs(1) have "fired w' = fired w @ hd (cancelListeners (tasks w ! a)) # tl fs" by simp
      then show "\<exists>fs. fired w' = fired w @ hd (cancelListeners (tasks w ! a)) # fs" by blast
    qed
    have all: "list_all (spares a w) (upto_throw (cancelListeners (tasks w ! a))) \<longrightarrow>
              fired w' = fired w @ upto_throw (cancelListeners (tasks w ! a))"
      unfolding w' using cancel_spared(1) [OF a False] by blast
    from False flag first all show ?thesis by simp
  qed
  from len fr fl show ?thesis by (intro conjI)
qed

theorem cancel_after_finish_fires_listeners_witness:
  "(let w = after [Submit ''A'', CallOncancel 0 (UserFn 1 [] None), CallOncancel 0 (UserFn 2 [] None),
                   BodySettles 0 (Returns Undefined)];
        w' = snd (TaskImpl_cancel 0 w)
    in 0 < length (tasks w) \<and> settled w 0 \<and> \<not> cancelled (tasks w ! 0) \<and>
       promise (tasks w ! 0) = Fulfilled Undefined \<and> fired w = [] \<and>
       cancelListeners (tasks w ! 0) = [UserFn 1 [] None, UserFn 2 [] None] \<and>
       list_all (spares 0 w) (upto_throw (cancelListeners (tasks w ! 0))) \<and>
       promise (tasks w' ! 0) = Fulfilled Undefined \<and>
       state (tasks w' ! 0) = state (tasks w ! 0) \<and> act (tasks w' ! 0) = act (tasks w ! 0) \<and>
       cancelled (tasks w' ! 0) \<and> fired w' = [UserFn 1 [] None, UserFn 2 [] None])"
proof -
  define w where "w = after [Submit ''A'', CallOncancel 0 (UserFn 1 [] None), CallOncancel 0 (UserFn 2 [] None),
                   BodySettles 0 (Returns Undefined)]"
  have l: "0 < length (tasks w)" and s: "settled w 0" and nc: "\<not> cancelled (tasks w ! 0)"
    and p: "promise (tasks w ! 0) = Fulfilled Undefined" and f: "fired w = []"
    and ls: "cancelListeners (tasks w ! 0) = [UserFn 1 [] None, UserFn 2 [] None]"
    and sp: "list_all (spares 0 w) (upto_throw (cancelListeners (tasks w ! 0)))"
    unfolding w_def by code_simp+
  have c: "TaskImpl_cancel 0 w = (fst (TaskImpl_cancel 0 w), snd (TaskImpl_cancel 0 w))" by simp
  note T = cancel_after_finish_fires_listeners [OF l c]
  have fr: "promise (tasks (snd (TaskImpl_cancel 0 w)) ! 0) = promise (tasks w ! 0) \<and>
          state (tasks (snd (TaskImpl_cancel 0 w)) ! 0) = state (tasks w ! 0) \<and>
          act (tasks (snd (TaskImpl_cancel 0 w)) ! 0) = act (tasks w ! 0)"
    using T [THEN conjunct2, THEN conjunct1, rule_format, of 0] .
  note E = T [THEN conjunct2, THEN conjunct2, unfolded if_not_P [OF nc]]
  have fl: "cancelled (tasks (snd (TaskImpl_cancel 0 w)) ! 0)" using E [THEN conjunct1] .
  have "fired (snd (TaskImpl_cancel 0 w)) = fired w @ upto_throw (cancelListeners (tasks w ! 0))"
    using E [THEN conjunct2, THEN conjunct2, rule_format, OF sp] .
  then have fi: "fired (snd (TaskImpl_cancel 0 w)) = [UserFn 1 [] None, UserFn 2 [] None]"
    by (simp add: f ls)
  from l s nc p f ls sp fr fl fi show ?thesis unfolding Let_def w_def [symmetric] by simp
qed

text \<open>
  Against C6 as stated: the body registers a listener and returns. Its promise is
  resolved and \<^verbatim>\<open>play\<close> has settled, but the reaction that moves the lane on has not
  run yet, so the task is still current; \<^verbatim>\<open>cancel()\<close> of the scheduler now calls the
  listener.
\<close>

theorem cancel_after_finish_counterexample:
  "(case run [Submit ''A'', CallOncancel 0 (UserFn 1 [] None), BodySettles 0 (Returns Undefined)] (init ''ftp'') of
      None \<Rightarrow> False
    | Some w \<Rightarrow>
        act (tasks w ! 0) = Returned \<and> promise (tasks w ! 0) = Fulfilled Undefined \<and>
        state (tasks w ! 0) = STARTED \<and> fired w = [] \<and> currentTask w = Some 0 \<and>
        (case Scheduler_cancel w of
           None \<Rightarrow> False
         | Some (r, w') \<Rightarrow> r = Ret () \<and> fired w' = [UserFn 1 [] None] \<and> cancelled (tasks w' ! 0)))"
  by code_simp

end
